theory Spec2Isabelle
  imports Main
begin

section \<open>Python values and exceptions\<close>

text \<open>
  The task manager of \<^verbatim>\<open>T_Scheduler.py\<close> keeps its tasks as whatever \<^verbatim>\<open>json.load\<close>
  returned, extended by the dictionaries that \<^verbatim>\<open>add_task\<close> builds. The values are
  therefore modelled dynamically: \<open>PDict\<close> is a dictionary with string keys in insertion
  order, \<open>PInt\<close> an unbounded integer. A character stands for a code point below 256.
  Floating point values are outside the model.
\<close>

datatype pyval =
    PNone
  | PBool bool
  | PInt int
  | PStr string
  | PList "pyval list"
  | PDict "(string \<times> pyval) list"

text \<open>
  The exceptions the modelled code can raise. \<open>ValueError\<close> carries its message, which is
  all that tells the three validation failures of \<^verbatim>\<open>add_task\<close> apart. \<open>Unsupported\<close> marks
  a file content whose value lies outside the model (a float, a code point above 255).
\<close>

datatype error =
    ValueError string
  | TypeError
  | KeyError
  | AttributeError
  | JSONDecodeError
  | RecursionError
  | Unsupported

definition InvalidTitle :: error where
  "InvalidTitle = ValueError ''Title can't be empty!''"

definition InvalidPriority :: error where
  "InvalidPriority = ValueError (''Priority must be 'Low', 'Medium', or 'High'' @ [CHR 0x27])"

definition InvalidDueDate :: error where
  "InvalidDueDate = ValueError ''Due date must be in the following format: YYYY-MM-DD''"

section \<open>The date check: \<^verbatim>\<open>datetime.strptime(due_date, "%Y-%m-%d")\<close>\<close>

text \<open>
  \<^verbatim>\<open>strptime\<close> turns the format into a regular expression, matches it at the start of the
  string, refuses unconverted trailing characters and builds a date from the groups:
  \<^verbatim>\<open>
    %Y  (?P<Y>\d\d\d\d)
    %m  (?P<m>1[0-2]|0[1-9]|[1-9])
    %d  (?P<d>3[0-1]|[1-2]\d|0[1-9]|[1-9]| [1-9])
  \<close>
  Alternatives are tried from left to right, with backtracking into the month when the
  rest of the expression fails.
\<close>

definition is_digit :: "char \<Rightarrow> bool" where
  "is_digit c = (c \<in> set ''0123456789'')"

definition digit_val :: "char \<Rightarrow> nat" where
  "digit_val c = of_char c - 48"

fun match_Y :: "string \<Rightarrow> (nat \<times> string) option" where
  "match_Y (a # b # c # d # r) =
     (if is_digit a \<and> is_digit b \<and> is_digit c \<and> is_digit d
      then Some (1000 * digit_val a + 100 * digit_val b + 10 * digit_val c + digit_val d, r)
      else None)"
| "match_Y _ = None"

fun alt2 :: "(char \<Rightarrow> bool) \<Rightarrow> (char \<Rightarrow> bool) \<Rightarrow> string \<Rightarrow> (nat \<times> string) list" where
  "alt2 p q (a # b # r) = (if p a \<and> q b then [(10 * digit_val a + digit_val b, r)] else [])"
| "alt2 p q _ = []"

fun alt1 :: "(char \<Rightarrow> bool) \<Rightarrow> string \<Rightarrow> (nat \<times> string) list" where
  "alt1 p (a # r) = (if p a then [(digit_val a, r)] else [])"
| "alt1 p [] = []"

fun alt_space :: "(char \<Rightarrow> bool) \<Rightarrow> string \<Rightarrow> (nat \<times> string) list" where
  "alt_space p (a # b # r) = (if a = CHR '' '' \<and> p b then [(digit_val b, r)] else [])"
| "alt_space p _ = []"

definition alts_m :: "string \<Rightarrow> (nat \<times> string) list" where
  "alts_m s =
     alt2 (\<lambda>c. c = CHR ''1'') (\<lambda>c. c \<in> set ''012'') s
     @ alt2 (\<lambda>c. c = CHR ''0'') (\<lambda>c. c \<in> set ''123456789'') s
     @ alt1 (\<lambda>c. c \<in> set ''123456789'') s"

definition alts_d :: "string \<Rightarrow> (nat \<times> string) list" where
  "alts_d s =
     alt2 (\<lambda>c. c = CHR ''3'') (\<lambda>c. c \<in> set ''01'') s
     @ alt2 (\<lambda>c. c \<in> set ''12'') is_digit s
     @ alt2 (\<lambda>c. c = CHR ''0'') (\<lambda>c. c \<in> set ''123456789'') s
     @ alt1 (\<lambda>c. c \<in> set ''123456789'') s
     @ alt_space (\<lambda>c. c \<in> set ''123456789'') s"

fun first_some :: "('a \<Rightarrow> 'b option) \<Rightarrow> 'a list \<Rightarrow> 'b option" where
  "first_some f [] = None"
| "first_some f (x # xs) = (case f x of Some y \<Rightarrow> Some y | None \<Rightarrow> first_some f xs)"

fun match_dash :: "string \<Rightarrow> string option" where
  "match_dash (c # r) = (if c = CHR ''-'' then Some r else None)"
| "match_dash [] = None"

definition match_day :: "string \<Rightarrow> (nat \<times> string) option" where
  "match_day s = first_some Some (alts_d s)"

definition match_month_day :: "string \<Rightarrow> ((nat \<times> nat) \<times> string) option" where
  "match_month_day s =
     first_some (\<lambda>(m, r). case match_dash r of None \<Rightarrow> None
                  | Some r' \<Rightarrow> (case match_day r' of None \<Rightarrow> None
                                | Some (d, r'') \<Rightarrow> Some ((m, d), r'')))
       (alts_m s)"

definition format_regex_match :: "string \<Rightarrow> ((nat \<times> nat \<times> nat) \<times> string) option" where
  "format_regex_match s =
     (case match_Y s of None \<Rightarrow> None
      | Some (y, r) \<Rightarrow> (case match_dash r of None \<Rightarrow> None
          | Some r' \<Rightarrow> (case match_month_day r' of None \<Rightarrow> None
              | Some ((m, d), r'') \<Rightarrow> Some ((y, m, d), r''))))"

definition is_leap :: "nat \<Rightarrow> bool" where
  "is_leap y = (y mod 4 = 0 \<and> (y mod 100 \<noteq> 0 \<or> y mod 400 = 0))"

definition days_in_month :: "nat \<Rightarrow> nat \<Rightarrow> nat" where
  "days_in_month y m =
     (if m = 2 then (if is_leap y then 29 else 28)
      else if m \<in> {4, 6, 9, 11} then 30 else 31)"

text \<open>The constructor of \<^verbatim>\<open>datetime.date\<close>: years 1 to 9999, a day the month has.\<close>

definition datetime_date :: "nat \<Rightarrow> nat \<Rightarrow> nat \<Rightarrow> bool" where
  "datetime_date y m d =
     (1 \<le> y \<and> y \<le> 9999 \<and> 1 \<le> m \<and> m \<le> 12 \<and> 1 \<le> d \<and> d \<le> days_in_month y m)"

text \<open>\<open>None\<close> stands for the \<^verbatim>\<open>ValueError\<close> of \<^verbatim>\<open>strptime\<close>, whatever its message.\<close>

definition strptime :: "string \<Rightarrow> (nat \<times> nat \<times> nat) option" where
  "strptime s =
     (case format_regex_match s of
        None \<Rightarrow> None
      | Some ((y, m, d), rest) \<Rightarrow>
          if rest \<noteq> [] then None
          else if datetime_date y m d then Some (y, m, d) else None)"

section \<open>\<^verbatim>\<open>json.dump(obj, file, indent = 4)\<close>\<close>

fun digits :: "nat \<Rightarrow> string" where
  "digits n = (if n < 10 then [char_of (48 + n)] else digits (n div 10) @ [char_of (48 + n mod 10)])"

declare digits.simps [simp del]

definition int_repr :: "int \<Rightarrow> string" where
  "int_repr i = (if i < 0 then CHR ''-'' # digits (nat (- i)) else digits (nat i))"

definition hex_digit :: "nat \<Rightarrow> char" where
  "hex_digit n = (if n < 10 then char_of (48 + n) else char_of (87 + n))"

text \<open>
  \<^verbatim>\<open>py_encode_basestring_ascii\<close>: the quote, the backslash and five control characters
  have short escapes, the printable ASCII characters from space to tilde stand for
  themselves, every other character is written \<^verbatim>\<open>\u00xx\<close>.
\<close>

definition escape_char :: "char \<Rightarrow> string" where
  "escape_char c =
     (if c = CHR 0x22 then [CHR 0x5C, CHR 0x22]
      else if c = CHR 0x5C then [CHR 0x5C, CHR 0x5C]
      else if c = CHR 0x0A then [CHR 0x5C, CHR ''n'']
      else if c = CHR 0x0D then [CHR 0x5C, CHR ''r'']
      else if c = CHR 0x09 then [CHR 0x5C, CHR ''t'']
      else if c = CHR 0x08 then [CHR 0x5C, CHR ''b'']
      else if c = CHR 0x0C then [CHR 0x5C, CHR ''f'']
      else if 32 \<le> (of_char c :: nat) \<and> (of_char c :: nat) \<le> 126 then [c]
      else [CHR 0x5C, CHR ''u'', CHR ''0'', CHR ''0'',
            hex_digit (of_char c div 16), hex_digit (of_char c mod 16)])"

definition encode_string :: "string \<Rightarrow> string" where
  "encode_string s = CHR 0x22 # concat (map escape_char s) @ [CHR 0x22]"

definition newline_indent :: "nat \<Rightarrow> string" where
  "newline_indent level = CHR 0x0A # replicate (4 * level) (CHR '' '')"

fun encode :: "nat \<Rightarrow> pyval \<Rightarrow> string"
  and encode_items :: "nat \<Rightarrow> pyval list \<Rightarrow> string"
  and encode_members :: "nat \<Rightarrow> (string \<times> pyval) list \<Rightarrow> string"
where
  "encode level PNone = ''null''"
| "encode level (PBool b) = (if b then ''true'' else ''false'')"
| "encode level (PInt i) = int_repr i"
| "encode level (PStr s) = encode_string s"
| "encode level (PList []) = ''[]''"
| "encode level (PList (x # xs)) =
     ''['' @ newline_indent (Suc level) @ encode_items (Suc level) (x # xs)
       @ newline_indent level @ '']''"
| "encode level (PDict []) = ''{}''"
| "encode level (PDict (m # ms)) =
     ''{'' @ newline_indent (Suc level) @ encode_members (Suc level) (m # ms)
       @ newline_indent level @ ''}''"
| "encode_items level [] = []"
| "encode_items level [x] = encode level x"
| "encode_items level (x # y # ys) =
     encode level x @ '','' @ newline_indent level @ encode_items level (y # ys)"
| "encode_members level [] = []"
| "encode_members level [(k, v)] = encode_string k @ '': '' @ encode level v"
| "encode_members level ((k, v) # m # ms) =
     encode_string k @ '': '' @ encode level v @ '','' @ newline_indent level
       @ encode_members level (m # ms)"

definition json_dump :: "pyval \<Rightarrow> string" where
  "json_dump obj = encode 0 obj"

section \<open>\<^verbatim>\<open>json.load(file)\<close>\<close>

text \<open>
  The decoder of the \<^verbatim>\<open>json\<close> module, for the values of the model: whitespace is
  skipped between tokens, a number with a fraction or an exponent and the names of the
  special floats are \<open>Unsupported\<close>, every malformed text is a \<^verbatim>\<open>JSONDecodeError\<close>.
\<close>

definition is_ws :: "char \<Rightarrow> bool" where
  "is_ws c = (c \<in> set [CHR '' '', CHR 0x09, CHR 0x0A, CHR 0x0D])"

definition skip_ws :: "string \<Rightarrow> string" where
  "skip_ws s = dropWhile is_ws s"

definition hex_val :: "char \<Rightarrow> nat option" where
  "hex_val c =
     (if is_digit c then Some (of_char c - 48)
      else if c \<in> set ''abcdef'' then Some (of_char c - 87)
      else if c \<in> set ''ABCDEF'' then Some (of_char c - 55)
      else None)"

definition decode_uXXXX :: "char \<Rightarrow> char \<Rightarrow> char \<Rightarrow> char \<Rightarrow> nat option" where
  "decode_uXXXX a b c d =
     (case (hex_val a, hex_val b, hex_val c, hex_val d) of
        (Some w, Some x, Some y, Some z) \<Rightarrow> Some (4096 * w + 256 * x + 16 * y + z)
      | _ \<Rightarrow> None)"

text \<open>The table \<^verbatim>\<open>BACKSLASH\<close> of the decoder.\<close>

definition backslash :: "char \<Rightarrow> char option" where
  "backslash e =
     (if e = CHR 0x22 then Some (CHR 0x22)
      else if e = CHR 0x5C then Some (CHR 0x5C)
      else if e = CHR ''/'' then Some (CHR ''/'')
      else if e = CHR ''b'' then Some (CHR 0x08)
      else if e = CHR ''f'' then Some (CHR 0x0C)
      else if e = CHR ''n'' then Some (CHR 0x0A)
      else if e = CHR ''r'' then Some (CHR 0x0D)
      else if e = CHR ''t'' then Some (CHR 0x09)
      else None)"

definition cons_result :: "char \<Rightarrow> error + (string \<times> string) \<Rightarrow> error + (string \<times> string)" where
  "cons_result c res = (case res of Inl e \<Rightarrow> Inl e | Inr (s, r) \<Rightarrow> Inr (c # s, r))"

text \<open>
  \<^verbatim>\<open>scanstring\<close> in strict mode, started after the opening quote: it returns the
  decoded string and the text after the closing quote.
\<close>

fun scanstring :: "string \<Rightarrow> error + (string \<times> string)" where
  "scanstring [] = Inl JSONDecodeError"
| "scanstring (c # r) =
     (if c = CHR 0x22 then Inr ([], r)
      else if c = CHR 0x5C then
        (case r of
           [] \<Rightarrow> Inl JSONDecodeError
         | e # r' \<Rightarrow>
             if e = CHR ''u'' then
               (case r' of
                  a # b # c # d # r'' \<Rightarrow>
                    (case decode_uXXXX a b c d of
                       None \<Rightarrow> Inl JSONDecodeError
                     | Some n \<Rightarrow> if n < 256 then cons_result (char_of n) (scanstring r'')
                                 else Inl Unsupported)
                | _ \<Rightarrow> Inl JSONDecodeError)
             else
               (case backslash e of
                  None \<Rightarrow> Inl JSONDecodeError
                | Some ch \<Rightarrow> cons_result ch (scanstring r')))
      else if (of_char c :: nat) < 32 then Inl JSONDecodeError
      else cons_result c (scanstring r))"

definition nat_of_digits :: "string \<Rightarrow> nat" where
  "nat_of_digits ds = foldl (\<lambda>n c. 10 * n + digit_val c) 0 ds"

text \<open>
  \<^verbatim>\<open>NUMBER_RE = (-?(?:0|[1-9]\d*))(\.\d+)?([eE][-+]?\d+)?\<close>: the text after the integer
  part starts a fraction or an exponent exactly when the value is a float.
\<close>

fun starts_frac :: "string \<Rightarrow> bool" where
  "starts_frac (c # d # r) = (c = CHR ''.'' \<and> is_digit d)"
| "starts_frac _ = False"

fun starts_exp :: "string \<Rightarrow> bool" where
  "starts_exp (e # c # r) =
     (e \<in> set ''eE'' \<and> (is_digit c \<or> (c \<in> set ''-+'' \<and> (case r of [] \<Rightarrow> False | d # _ \<Rightarrow> is_digit d))))"
| "starts_exp _ = False"

definition after_fraction :: "string \<Rightarrow> string" where
  "after_fraction r = (if starts_frac r then dropWhile is_digit (tl r) else r)"

definition int_or_float :: "bool \<Rightarrow> nat \<Rightarrow> string \<Rightarrow> error + (pyval \<times> string)" where
  "int_or_float neg n r =
     (if starts_frac r \<or> starts_exp (after_fraction r) then Inl Unsupported
      else Inr (PInt (if neg then - int n else int n), r))"

definition match_unsigned :: "bool \<Rightarrow> string \<Rightarrow> (error + (pyval \<times> string)) option" where
  "match_unsigned neg s =
     (case s of
        [] \<Rightarrow> None
      | c # r \<Rightarrow>
          if c = CHR ''0'' then Some (int_or_float neg 0 r)
          else if is_digit c then
            Some (int_or_float neg (nat_of_digits (c # takeWhile is_digit r)) (dropWhile is_digit r))
          else None)"

text \<open>\<open>None\<close>: the regular expression does not match at the start of the text.\<close>

definition match_number :: "string \<Rightarrow> (error + (pyval \<times> string)) option" where
  "match_number s =
     (case s of
        [] \<Rightarrow> None
      | c # r \<Rightarrow> if c = CHR ''-'' then match_unsigned True r else match_unsigned False s)"

fun starts_with :: "string \<Rightarrow> string \<Rightarrow> string option" where
  "starts_with [] s = Some s"
| "starts_with (p # ps) [] = None"
| "starts_with (p # ps) (c # s) = (if p = c then starts_with ps s else None)"

text \<open>
  The scanner for what is neither a string, an array nor an object, in the order of
  \<^verbatim>\<open>scan_once\<close>.
\<close>

definition scan_atom :: "string \<Rightarrow> error + (pyval \<times> string)" where
  "scan_atom s =
     (case starts_with ''null'' s of Some r \<Rightarrow> Inr (PNone, r) | None \<Rightarrow>
     (case starts_with ''true'' s of Some r \<Rightarrow> Inr (PBool True, r) | None \<Rightarrow>
     (case starts_with ''false'' s of Some r \<Rightarrow> Inr (PBool False, r) | None \<Rightarrow>
     (case match_number s of Some res \<Rightarrow> res | None \<Rightarrow>
     (case starts_with ''NaN'' s of Some r \<Rightarrow> Inl Unsupported | None \<Rightarrow>
     (case starts_with ''Infinity'' s of Some r \<Rightarrow> Inl Unsupported | None \<Rightarrow>
     (case starts_with ''-Infinity'' s of Some r \<Rightarrow> Inl Unsupported | None \<Rightarrow>
      Inl JSONDecodeError)))))))"

text \<open>
  \<^verbatim>\<open>dict(pairs)\<close>: a key met again keeps its place and takes the later value.
\<close>

fun dict_set :: "(string \<times> pyval) list \<Rightarrow> string \<Rightarrow> pyval \<Rightarrow> (string \<times> pyval) list" where
  "dict_set [] k v = [(k, v)]"
| "dict_set (m # ms) k v = (if fst m = k then (k, v) # ms else m # dict_set ms k v)"

definition py_dict :: "(string \<times> pyval) list \<Rightarrow> (string \<times> pyval) list" where
  "py_dict pairs = foldl (\<lambda>d m. dict_set d (fst m) (snd m)) [] pairs"

text \<open>
  The recursive descent of \<^verbatim>\<open>scan_once\<close>, \<^verbatim>\<open>JSONArray\<close> and \<^verbatim>\<open>JSONObject\<close>. The first
  argument bounds the number of nested calls, and \<open>RecursionError\<close> is what the model
  returns when it is used up; \<open>json_load\<close> starts with more than twice the length of
  the text, which is never used up, as two nested calls consume a character. The
  recursion limit of the interpreter is not modelled. \<open>parse_elements\<close> starts at a
  value of an array, \<open>parse_members\<close> after the opening quote of a key.
\<close>

fun scan_once :: "nat \<Rightarrow> string \<Rightarrow> error + (pyval \<times> string)"
  and parse_elements :: "nat \<Rightarrow> string \<Rightarrow> error + (pyval list \<times> string)"
  and parse_members :: "nat \<Rightarrow> string \<Rightarrow> error + ((string \<times> pyval) list \<times> string)"
where
  "scan_once 0 s = Inl RecursionError"
| "scan_once (Suc n) [] = Inl JSONDecodeError"
| "scan_once (Suc n) (c # r) =
     (if c = CHR 0x22 then
        (case scanstring r of Inl e \<Rightarrow> Inl e | Inr (str, r') \<Rightarrow> Inr (PStr str, r'))
      else if c = CHR ''{'' then
        (case skip_ws r of
           [] \<Rightarrow> Inl JSONDecodeError
         | c' # r' \<Rightarrow>
             if c' = CHR ''}'' then Inr (PDict [], r')
             else if c' = CHR 0x22 then
               (case parse_members n r' of
                  Inl e \<Rightarrow> Inl e
                | Inr (pairs, r'') \<Rightarrow> Inr (PDict (py_dict pairs), r''))
             else Inl JSONDecodeError)
      else if c = CHR ''['' then
        (case skip_ws r of
           [] \<Rightarrow> Inl JSONDecodeError
         | c' # r' \<Rightarrow>
             if c' = CHR '']'' then Inr (PList [], r')
             else (case parse_elements n (c' # r') of
                     Inl e \<Rightarrow> Inl e
                   | Inr (values, r'') \<Rightarrow> Inr (PList values, r'')))
      else scan_atom (c # r))"
| "parse_elements 0 s = Inl RecursionError"
| "parse_elements (Suc n) s =
     (case scan_once n s of
        Inl e \<Rightarrow> Inl e
      | Inr (v, r) \<Rightarrow>
          (case skip_ws r of
             [] \<Rightarrow> Inl JSONDecodeError
           | c # r' \<Rightarrow>
               if c = CHR '']'' then Inr ([v], r')
               else if c = CHR '','' then
                 (case parse_elements n (skip_ws r') of
                    Inl e \<Rightarrow> Inl e
                  | Inr (vs, r'') \<Rightarrow> Inr (v # vs, r''))
               else Inl JSONDecodeError))"
| "parse_members 0 s = Inl RecursionError"
| "parse_members (Suc n) s =
     (case scanstring s of
        Inl e \<Rightarrow> Inl e
      | Inr (key, r) \<Rightarrow>
          (case starts_with '':'' (skip_ws r) of
             None \<Rightarrow> Inl JSONDecodeError
           | Some r1 \<Rightarrow>
               (case scan_once n (skip_ws r1) of
                  Inl e \<Rightarrow> Inl e
                | Inr (v, r2) \<Rightarrow>
                    (case skip_ws r2 of
                       [] \<Rightarrow> Inl JSONDecodeError
                     | c # r3 \<Rightarrow>
                         if c = CHR ''}'' then Inr ([(key, v)], r3)
                         else if c = CHR '','' then
                           (case starts_with [CHR 0x22] (skip_ws r3) of
                              None \<Rightarrow> Inl JSONDecodeError
                            | Some r4 \<Rightarrow>
                                (case parse_members n r4 of
                                   Inl e \<Rightarrow> Inl e
                                 | Inr (ms, r5) \<Rightarrow> Inr ((key, v) # ms, r5)))
                         else Inl JSONDecodeError))))"

definition json_load :: "string \<Rightarrow> error + pyval" where
  "json_load s =
     (case scan_once (2 * length s + 2) (skip_ws s) of
        Inl e \<Rightarrow> Inl e
      | Inr (obj, r) \<Rightarrow> if skip_ws r = [] then Inr obj else Inl JSONDecodeError)"

section \<open>The class \<^verbatim>\<open>Task\<close>\<close>

text \<open>
  An object of the class has the two attributes \<^verbatim>\<open>json_file\<close> and \<^verbatim>\<open>task_list\<close>. The
  files of the machine are a map from paths to contents; a path outside its domain is a
  file that does not exist. Failures of the file system other than a missing file are
  not modelled.
\<close>

record store =
  json_file :: string
  task_list :: pyval

type_synonym files = "string \<rightharpoonup> string"

text \<open>\<^verbatim>\<open>save_to_json\<close>: the file is opened for writing and receives the whole list.\<close>

definition save_to_json :: "store \<Rightarrow> files \<Rightarrow> files" where
  "save_to_json self fs = fs(json_file self \<mapsto> json_dump (task_list self))"

text \<open>
  \<^verbatim>\<open>load_from_json\<close>: a missing file is caught and gives the empty list; an exception of
  the decoder is not caught.
\<close>

definition load_from_json :: "string \<Rightarrow> files \<Rightarrow> error + pyval" where
  "load_from_json path fs =
     (case fs path of
        None \<Rightarrow> Inr (PList [])
      | Some text \<Rightarrow> json_load text)"

text \<open>The constructor \<^verbatim>\<open>Task(json_file)\<close>.\<close>

definition init :: "string \<Rightarrow> files \<Rightarrow> error + store" where
  "init path fs =
     (case load_from_json path fs of
        Inl e \<Rightarrow> Inl e
      | Inr tasks \<Rightarrow> Inr \<lparr>json_file = path, task_list = tasks\<rparr>)"

text \<open>The dictionary literal of \<^verbatim>\<open>add_task\<close>.\<close>

definition task_dict :: "int \<Rightarrow> string \<Rightarrow> string \<Rightarrow> string \<Rightarrow> string \<Rightarrow> pyval" where
  "task_dict next_id title description due_date priority =
     PDict [(''id'', PInt next_id),
            (''title'', PStr title),
            (''description'', PStr description),
            (''due_date'', PStr due_date),
            (''priority'', PStr priority)]"

text \<open>
  \<^verbatim>\<open>for task in self.task_list\<close>: a list yields its elements, a dictionary its keys, a
  string its characters; nothing else can be iterated over.
\<close>

fun py_iter :: "pyval \<Rightarrow> error + pyval list" where
  "py_iter (PList xs) = Inr xs"
| "py_iter (PDict ms) = Inr (map (\<lambda>m. PStr (fst m)) ms)"
| "py_iter (PStr s) = Inr (map (\<lambda>c. PStr [c]) s)"
| "py_iter _ = Inl TypeError"

text \<open>\<^verbatim>\<open>task[key]\<close> for a string key: only a dictionary can be subscripted by a string.\<close>

fun py_getitem :: "pyval \<Rightarrow> string \<Rightarrow> error + pyval" where
  "py_getitem (PDict ms) key = (case map_of ms key of None \<Rightarrow> Inl KeyError | Some v \<Rightarrow> Inr v)"
| "py_getitem _ key = Inl TypeError"

text \<open>A list comprehension: the first element that raises ends it.\<close>

fun comprehension :: "('a \<Rightarrow> error + 'b) \<Rightarrow> 'a list \<Rightarrow> error + 'b list" where
  "comprehension f [] = Inr []"
| "comprehension f (x # xs) =
     (case f x of Inl e \<Rightarrow> Inl e
      | Inr y \<Rightarrow> (case comprehension f xs of Inl e \<Rightarrow> Inl e | Inr ys \<Rightarrow> Inr (y # ys)))"

text \<open>
  \<^verbatim>\<open>max(ids, default=0) + 1\<close>. Integers and booleans compare with each other and can be
  added to 1. A value of any other kind among the ids ends in \<^verbatim>\<open>TypeError\<close>: either a
  comparison of \<^verbatim>\<open>max\<close> raises it (a number never compares with a value that is not one),
  or all ids are of that kind, so is their maximum, and the addition raises it.
\<close>

fun as_number :: "pyval \<Rightarrow> int option" where
  "as_number (PInt i) = Some i"
| "as_number (PBool b) = Some (if b then 1 else 0)"
| "as_number _ = None"

fun py_max :: "int list \<Rightarrow> int \<Rightarrow> int" where
  "py_max [] dflt = dflt"
| "py_max (x # xs) dflt = foldl max x xs"

definition max_plus_one :: "pyval list \<Rightarrow> error + int" where
  "max_plus_one ids =
     (case those (map as_number ids) of
        None \<Rightarrow> Inl TypeError
      | Some ns \<Rightarrow> Inr (py_max ns 0 + 1))"

definition next_id_of :: "pyval \<Rightarrow> error + int" where
  "next_id_of tasks =
     (case py_iter tasks of Inl e \<Rightarrow> Inl e
      | Inr ts \<Rightarrow> (case comprehension (\<lambda>task. py_getitem task ''id'') ts of
                     Inl e \<Rightarrow> Inl e
                   | Inr ids \<Rightarrow> max_plus_one ids))"

text \<open>\<^verbatim>\<open>self.task_list.append(task)\<close>: only a list has the method.\<close>

fun py_append :: "pyval \<Rightarrow> pyval \<Rightarrow> error + pyval" where
  "py_append (PList xs) x = Inr (PList (xs @ [x]))"
| "py_append _ x = Inl AttributeError"

text \<open>
  \<^verbatim>\<open>add_task\<close> returns the outcome of the call (the exception raised, or the value
  returned, which is \<^verbatim>\<open>None\<close> as the method has no \<^verbatim>\<open>return\<close> statement), the object and
  the files as the call leaves them.
\<close>

definition add_task ::
  "store \<Rightarrow> files \<Rightarrow> string \<Rightarrow> string \<Rightarrow> string \<Rightarrow> string \<Rightarrow> (error + pyval) \<times> store \<times> files"
where
  "add_task self fs title description due_date priority =
     (if title = [] then (Inl InvalidTitle, self, fs)
      else if priority \<notin> set [''Low'', ''Medium'', ''High''] then (Inl InvalidPriority, self, fs)
      else case strptime due_date of
        None \<Rightarrow> (Inl InvalidDueDate, self, fs)
      | Some _ \<Rightarrow>
          (case next_id_of (task_list self) of
             Inl e \<Rightarrow> (Inl e, self, fs)
           | Inr next_id \<Rightarrow>
               (case py_append (task_list self)
                       (task_dict next_id title description due_date priority) of
                  Inl e \<Rightarrow> (Inl e, self, fs)
                | Inr tasks \<Rightarrow>
                    (let self' = self\<lparr>task_list := tasks\<rparr>
                     in (Inr PNone, self', save_to_json self' fs)))))"

section \<open>The commands\<close>

text \<open>
  What a command prints: a line of text, or a table given by its rows. The rendering of
  a table, with the conversion of its cells to text, is the console library's.
\<close>

datatype console_output = Print string | PrintTable "pyval list list"

fun truthy :: "pyval \<Rightarrow> bool" where
  "truthy PNone = False"
| "truthy (PBool b) = b"
| "truthy (PInt i) = (i \<noteq> 0)"
| "truthy (PStr s) = (s \<noteq> [])"
| "truthy (PList xs) = (xs \<noteq> [])"
| "truthy (PDict ms) = (ms \<noteq> [])"

definition table_row :: "pyval \<Rightarrow> error + pyval list" where
  "table_row task =
     comprehension (py_getitem task) [''id'', ''title'', ''description'', ''priority'', ''due_date'']"

definition view :: "store \<Rightarrow> error + console_output" where
  "view task_manager =
     (if \<not> truthy (task_list task_manager) then Inr (Print ''[yellow]No current tasks.[/yellow]'')
      else case py_iter (task_list task_manager) of
        Inl e \<Rightarrow> Inl e
      | Inr ts \<Rightarrow> (case comprehension table_row ts of
                     Inl e \<Rightarrow> Inl e
                   | Inr rows \<Rightarrow> Inr (PrintTable rows)))"

text \<open>
  The command \<^verbatim>\<open>add\<close> catches every \<^verbatim>\<open>ValueError\<close> and prints it; any other exception
  leaves the command.
\<close>

definition add ::
  "store \<Rightarrow> files \<Rightarrow> string \<Rightarrow> string \<Rightarrow> string \<Rightarrow> string \<Rightarrow> (error + console_output) \<times> store \<times> files"
where
  "add task_manager fs title description due_date priority =
     (case add_task task_manager fs title description due_date priority of
        (Inr _, self', fs') \<Rightarrow> (Inr (Print ''[green]Task successfully added![/green]''), self', fs')
      | (Inl (ValueError e), self', fs') \<Rightarrow>
          (Inr (Print (''[red]Error: '' @ e @ ''[/red]'')), self', fs')
      | (Inl e, self', fs') \<Rightarrow> (Inl e, self', fs'))"

section \<open>Notions of the specification\<close>

text \<open>
  The id of a record, as \<^verbatim>\<open>add_task\<close> reads it: the value under the key \<^verbatim>\<open>"id"\<close>, when
  the record is a dictionary that has the key and the value is a number.
\<close>

definition task_id :: "pyval \<Rightarrow> int option" where
  "task_id task = (case py_getitem task ''id'' of Inl e \<Rightarrow> None | Inr v \<Rightarrow> as_number v)"

text \<open>
  A sequence of calls of \<^verbatim>\<open>add_task\<close> on the same object, one for each tuple of
  arguments; an exception ends the sequence.
\<close>

fun add_tasks ::
  "store \<Rightarrow> files \<Rightarrow> (string \<times> string \<times> string \<times> string) list \<Rightarrow> (error + pyval) \<times> store \<times> files"
where
  "add_tasks self fs [] = (Inr PNone, self, fs)"
| "add_tasks self fs ((title, description, due_date, priority) # rest) =
     (case add_task self fs title description due_date priority of
        (Inl e, self', fs') \<Rightarrow> (Inl e, self', fs')
      | (Inr r, self', fs') \<Rightarrow> add_tasks self' fs' rest)"

text \<open>
  The removal of the record at position \<open>k\<close> from outside the program: the file is
  edited and the program started again.
\<close>

definition remove_record :: "nat \<Rightarrow> store \<Rightarrow> store" where
  "remove_record k self =
     (case task_list self of
        PList ts \<Rightarrow> self\<lparr>task_list := PList (take k ts @ drop (Suc k) ts)\<rparr>
      | _ \<Rightarrow> self)"

text \<open>The object the program creates when \<^verbatim>\<open>tasks.json\<close> does not exist.\<close>

definition store0 :: store where
  "store0 = \<lparr>json_file = ''tasks.json'', task_list = PList []\<rparr>"


text \<open>
  A task record as \<^verbatim>\<open>add_task\<close> builds it: a dictionary with the five keys in the order
  of the dictionary literal, an integer id and four strings.
\<close>

fun is_int :: "pyval \<Rightarrow> bool" where
  "is_int (PInt i) = True"
| "is_int _ = False"

fun is_str :: "pyval \<Rightarrow> bool" where
  "is_str (PStr s) = True"
| "is_str _ = False"

definition is_task_record :: "pyval \<Rightarrow> bool" where
  "is_task_record r =
     (case r of
        PDict ms \<Rightarrow>
          map fst ms = [''id'', ''title'', ''description'', ''due_date'', ''priority'']
          \<and> is_int (snd (hd ms)) \<and> list_all (\<lambda>m. is_str (snd m)) (tl ms)
      | _ \<Rightarrow> False)"

text \<open>
  The date format in the words of the specification and of the code's comment and
  error message: four digits, a hyphen, two digits, a hyphen, two digits, which are a
  date of the calendar.
\<close>

definition yyyy_mm_dd :: "string \<Rightarrow> bool" where
  "yyyy_mm_dd s =
     (length s = 10
      \<and> list_all is_digit (take 4 s) \<and> s ! 4 = CHR ''-''
      \<and> list_all is_digit (take 2 (drop 5 s)) \<and> s ! 7 = CHR ''-''
      \<and> list_all is_digit (drop 8 s)
      \<and> datetime_date (nat_of_digits (take 4 s)) (nat_of_digits (take 2 (drop 5 s)))
            (nat_of_digits (drop 8 s)))"

section \<open>Notions of the proofs\<close>

text \<open>
  A value of the model is a value of Python when no dictionary has a key twice.
\<close>

fun wf_value :: "pyval \<Rightarrow> bool" where
  "wf_value (PList xs) = list_all wf_value xs"
| "wf_value (PDict ms) = (distinct (map fst ms) \<and> list_all (\<lambda>m. wf_value (snd m)) ms)"
| "wf_value _ = True"

text \<open>
  The text after a value in the output of the encoder is empty or starts with a comma
  or a line break; a value starts with a character that is neither whitespace nor a
  closing bracket nor a comma.
\<close>

definition delimited :: "string \<Rightarrow> bool" where
  "delimited r = (case r of [] \<Rightarrow> True | c # _ \<Rightarrow> c = CHR '','' \<or> c = CHR 0x0A)"

definition value_start :: "char \<Rightarrow> bool" where
  "value_start c = (\<not> is_ws c \<and> c \<noteq> CHR '']'' \<and> c \<noteq> CHR ''}'' \<and> c \<noteq> CHR '','')"

section \<open>Auxiliary facts\<close>

subsection \<open>The id, the validation and the frame of \<^verbatim>\<open>add_task\<close>\<close>

lemma errors_distinct:
  "InvalidTitle \<noteq> InvalidPriority" "InvalidTitle \<noteq> InvalidDueDate" "InvalidPriority \<noteq> InvalidDueDate"
  by (simp_all add: InvalidTitle_def InvalidPriority_def InvalidDueDate_def)

lemma comprehension_Inr:
  "comprehension f xs = Inr ys \<Longrightarrow> map f xs = map Inr ys"
  by (induction xs arbitrary: ys) (auto split: sum.splits)

lemma comprehension_map_Inr:
  "map f xs = map Inr ys \<Longrightarrow> comprehension f xs = Inr ys"
  by (induction xs arbitrary: ys) (auto split: sum.splits)

lemma those_map_Some: "those (map Some ns) = Some ns"
  by (induction ns) auto

lemma those_Some: "those xs = Some ns \<Longrightarrow> xs = map Some ns"
  by (induction xs arbitrary: ns) (auto split: option.splits)

lemma foldl_max_Max: "foldl max (x::int) xs = Max (set (x # xs))"
  by (simp add: Max.set_eq_fold foldl_conv_fold max.commute del: set_simps)

lemma py_max_nonempty: "ns \<noteq> [] \<Longrightarrow> py_max ns d = Max (set ns)"
  by (cases ns) (simp_all add: foldl_max_Max del: foldl_Cons)

lemma next_id_of_Inr:
  assumes "next_id_of tasks = Inr n" "py_iter tasks = Inr ts"
  shows "\<exists>ns. map task_id ts = map Some ns \<and> n = py_max ns 0 + 1"
proof -
  from assms obtain ids where c: "comprehension (\<lambda>task. py_getitem task ''id'') ts = Inr ids"
    and m: "max_plus_one ids = Inr n"
    by (auto simp: next_id_of_def split: sum.splits)
  from m obtain ns where t: "those (map as_number ids) = Some ns" and n: "n = py_max ns 0 + 1"
    by (auto simp: max_plus_one_def split: option.splits)
  from c have "map (\<lambda>task. py_getitem task ''id'') ts = map Inr ids"
    by (rule comprehension_Inr)
  then have "map task_id ts = map as_number ids"
    by (induction ts arbitrary: ids) (auto simp: task_id_def)
  also from t have "\<dots> = map Some ns" by (rule those_Some)
  finally show ?thesis using n by blast
qed

lemma next_id_of_list:
  assumes "map task_id ts = map Some ns"
  shows "next_id_of (PList ts) = Inr (py_max ns 0 + 1)"
proof -
  from assms have "\<exists>ids. map (\<lambda>task. py_getitem task ''id'') ts = map Inr ids \<and> map as_number ids = map Some ns"
  proof (induction ts arbitrary: ns)
    case Nil
    then show ?case by simp
  next
    case (Cons t ts)
    then obtain n ns' where ns: "ns = n # ns'" and t: "task_id t = Some n" and r: "map task_id ts = map Some ns'"
      by (cases ns) auto
    from Cons.IH [OF r] obtain ids where i: "map (\<lambda>task. py_getitem task ''id'') ts = map Inr ids"
      "map as_number ids = map Some ns'" by blast
    from t obtain v where v: "py_getitem t ''id'' = Inr v" "as_number v = Some n"
      by (auto simp: task_id_def split: sum.splits)
    have "map (\<lambda>task. py_getitem task ''id'') (t # ts) = map Inr (v # ids) \<and> map as_number (v # ids) = map Some ns"
      using i v ns by simp
    then show ?case by blast
  qed
  then obtain ids where i: "map (\<lambda>task. py_getitem task ''id'') ts = map Inr ids"
    and a: "map as_number ids = map Some ns" by blast
  from i have "comprehension (\<lambda>task. py_getitem task ''id'') ts = Inr ids"
    by (rule comprehension_map_Inr)
  moreover have "max_plus_one ids = Inr (py_max ns 0 + 1)"
    by (simp add: max_plus_one_def a those_map_Some)
  ultimately show ?thesis by (simp add: next_id_of_def)
qed

lemma py_append_Inr: "py_append tasks x = Inr tasks' \<Longrightarrow> \<exists>ts. tasks = PList ts \<and> tasks' = PList (ts @ [x])"
  by (cases tasks) auto

lemma add_task_success:
  assumes "add_task self fs title description due_date priority = (Inr r, self', fs')"
  shows "\<exists>ts ns. task_list self = PList ts \<and> map task_id ts = map Some ns
           \<and> r = PNone
           \<and> self' = self\<lparr>task_list := PList (ts @ [task_dict (py_max ns 0 + 1) title description due_date priority])\<rparr>
           \<and> fs' = save_to_json self' fs
           \<and> title \<noteq> [] \<and> priority \<in> set [''Low'', ''Medium'', ''High''] \<and> strptime due_date \<noteq> None"
proof -
  from assms obtain n tasks where n: "next_id_of (task_list self) = Inr n"
    and a: "py_append (task_list self) (task_dict n title description due_date priority) = Inr tasks"
    and v: "title \<noteq> []" "priority \<in> set [''Low'', ''Medium'', ''High'']" "strptime due_date \<noteq> None"
    and r: "r = PNone" "self' = self\<lparr>task_list := tasks\<rparr>" "fs' = save_to_json self' fs"
    by (auto simp: add_task_def Let_def split: if_splits option.splits sum.splits)
  from a obtain ts where ts: "task_list self = PList ts"
    "tasks = PList (ts @ [task_dict n title description due_date priority])"
    by (blast dest: py_append_Inr)
  from n ts obtain ns where "map task_id ts = map Some ns" "n = py_max ns 0 + 1"
    using next_id_of_Inr [of "task_list self" n ts] by auto
  with ts r v show ?thesis by blast
qed

lemma add_task_valid:
  assumes "task_list self = PList ts" "map task_id ts = map Some ns"
    and "title \<noteq> []" "priority \<in> set [''Low'', ''Medium'', ''High'']" "strptime due_date \<noteq> None"
  shows "add_task self fs title description due_date priority =
    (Inr PNone,
     self\<lparr>task_list := PList (ts @ [task_dict (py_max ns 0 + 1) title description due_date priority])\<rparr>,
     save_to_json (self\<lparr>task_list := PList (ts @ [task_dict (py_max ns 0 + 1) title description due_date priority])\<rparr>) fs)"
  using assms next_id_of_list [OF assms(2)]
  by (auto simp: add_task_def Let_def)

lemma py_max_upto: "py_max [1..int n] 0 = int n"
proof (cases n)
  case 0
  then show ?thesis by simp
next
  case (Suc m)
  then have "[1..int n] \<noteq> []" by (simp add: upto.simps)
  then have "py_max [1..int n] 0 = Max (set [1..int n])" by (rule py_max_nonempty)
  also have "\<dots> = int n" using Suc by (simp add: Max_eq_iff)
  finally show ?thesis .
qed

lemma upto_snoc: "[1..int n] @ [int n + 1] = [1..int (Suc n)]"
  by (simp add: upto_rec2)

lemma add_tasks_ids:
  assumes "add_tasks self fs inputs = (Inr r, self', fs')"
    and "task_list self = PList ts" "map task_id ts = map Some [1..int n]"
  shows "\<exists>ts'. task_list self' = PList ts' \<and> map task_id ts' = map Some [1..int (n + length inputs)]"
  using assms
proof (induction inputs arbitrary: self fs ts n)
  case Nil
  then show ?case by simp
next
  case (Cons a inputs)
  obtain title description due_date priority where a: "a = (title, description, due_date, priority)"
    by (cases a) auto
  from Cons.prems(1) a obtain r1 self1 fs1 where
    s: "add_task self fs title description due_date priority = (Inr r1, self1, fs1)"
    and t: "add_tasks self1 fs1 inputs = (Inr r, self', fs')"
    by (auto split: prod.splits sum.splits)
  from add_task_success [OF s] Cons.prems(2) obtain ns where
    ns: "map task_id ts = map Some ns"
    and s1: "task_list self1 = PList (ts @ [task_dict (py_max ns 0 + 1) title description due_date priority])"
    by auto
  from ns Cons.prems(3) have "map Some ns = map Some [1..int n]" by simp
  then have "ns = [1..int n]" by (simp add: inj_map_eq_map)
  then have k: "py_max ns 0 + 1 = int n + 1" by (simp add: py_max_upto)
  have "task_id (task_dict (int n + 1) title description due_date priority) = Some (int n + 1)"
    by (simp add: task_id_def task_dict_def)
  then have "map task_id (ts @ [task_dict (int n + 1) title description due_date priority]) = map Some ([1..int n] @ [int n + 1])"
    using Cons.prems(3) by simp
  then have m: "map task_id (ts @ [task_dict (int n + 1) title description due_date priority]) = map Some [1..int (Suc n)]"
    by (simp only: upto_snoc)
  from Cons.IH [OF t s1 [unfolded k] m] show ?case by simp
qed

lemma strptime_example: "strptime ''2024-07-15'' = Some (2024, 7, 15)"
  by code_simp

lemma strptime_bad: "strptime ''2024/01/01'' = None"
  by code_simp

lemma comprehension_getitem_error:
  "comprehension (\<lambda>task. py_getitem task key) ts = Inl e \<Longrightarrow> e = TypeError \<or> e = KeyError"
proof (induction ts)
  case Nil
  then show ?case by simp
next
  case (Cons t ts)
  then show ?case
    by (cases t) (auto split: sum.splits option.splits)
qed

lemma next_id_of_error: "next_id_of tasks = Inl e \<Longrightarrow> e = TypeError \<or> e = KeyError"
  by (cases tasks)
    (auto simp: next_id_of_def max_plus_one_def split: sum.splits option.splits
      dest: comprehension_getitem_error)

lemma py_append_error: "py_append tasks x = Inl e \<Longrightarrow> e = AttributeError"
  by (cases tasks) auto

lemma add_task_ValueError:
  "(fst (add_task self fs title description due_date priority) = Inl (ValueError m)) =
     (if title = [] then ValueError m = InvalidTitle
      else if priority \<notin> set [''Low'', ''Medium'', ''High''] then ValueError m = InvalidPriority
      else strptime due_date = None \<and> ValueError m = InvalidDueDate)"
  by (auto simp: add_task_def Let_def split: option.splits sum.splits
      dest: next_id_of_error py_append_error)

subsection \<open>The decoder inverts the encoder\<close>

lemma hex_roundtrip: "\<forall>k \<in> {0..<16}. hex_val (hex_digit k) = Some k"
  by code_simp

lemma digit_char: "\<forall>k \<in> {0..<10}. is_digit (char_of (48 + k)) \<and> digit_val (char_of (48 + k)) = k
   \<and> ((char_of (48 + k) :: char) = CHR ''0'') = (k = 0)
   \<and> (char_of (48 + k) :: char) \<notin> set ''ntf-\"[{]}, ''
   \<and> \<not> is_ws (char_of (48 + k))"
  by code_simp

lemma digit_char_is_digit: "k < 10 \<Longrightarrow> is_digit (char_of (48 + k))"
  and digit_char_val: "k < 10 \<Longrightarrow> digit_val (char_of (48 + k)) = k"
  and digit_char_zero: "k < 10 \<Longrightarrow> ((char_of (48 + k) :: char) = CHR ''0'') = (k = 0)"
  and digit_char_other: "k < 10 \<Longrightarrow> (char_of (48 + k) :: char) \<notin> set ''ntf-\"[{]}, ''"
  and digit_char_not_ws: "k < 10 \<Longrightarrow> \<not> is_ws (char_of (48 + k))"
  using digit_char by auto

lemma skip_ws_replicate: "skip_ws (replicate k (CHR '' '') @ r) = skip_ws r"
  by (induction k) (simp_all add: skip_ws_def is_ws_def)

lemma skip_ws_newline_indent: "skip_ws (newline_indent l @ r) = skip_ws r"
  using skip_ws_replicate [of "4 * l" r]
  by (simp add: newline_indent_def skip_ws_def is_ws_def)

lemma skip_ws_Cons: "\<not> is_ws c \<Longrightarrow> skip_ws (c # r) = c # r"
  by (simp add: skip_ws_def)

lemma digits_ne: "digits n \<noteq> []"
  by (subst digits.simps) simp

lemma digits_all: "list_all is_digit (digits n)"
proof (induction n rule: digits.induct)
  case (1 n)
  show ?case
  proof (cases "n < 10")
    case True
    then show ?thesis by (subst digits.simps) (simp add: digit_char_is_digit)
  next
    case False
    with 1 show ?thesis by (subst digits.simps) (simp add: digit_char_is_digit)
  qed
qed

lemma nat_of_digits_snoc: "nat_of_digits (ds @ [c]) = 10 * nat_of_digits ds + digit_val c"
  by (simp add: nat_of_digits_def)

lemma nat_of_digits_digits: "nat_of_digits (digits n) = n"
proof (induction n rule: digits.induct)
  case (1 n)
  show ?case
  proof (cases "n < 10")
    case True
    then show ?thesis by (subst digits.simps) (simp add: nat_of_digits_def digit_char_val)
  next
    case False
    with 1 show ?thesis
      by (subst digits.simps) (simp add: nat_of_digits_snoc digit_char_val)
  qed
qed

lemma hd_digits_zero: "(hd (digits n) = CHR ''0'') = (n = 0)"
proof (induction n rule: digits.induct)
  case (1 n)
  show ?case
  proof (cases "n < 10")
    case True
    then show ?thesis by (subst digits.simps) (simp add: digit_char_zero)
  next
    case False
    with 1 show ?thesis
      by (subst digits.simps) (simp add: digits_ne)
  qed
qed

lemma digits_0: "digits 0 = ''0''"
  by code_simp

lemma delimited_no_digit: "delimited r \<Longrightarrow> takeWhile is_digit r = [] \<and> dropWhile is_digit r = r"
  by (cases r) (auto simp: delimited_def is_digit_def)

lemma delimited_no_float: "delimited r \<Longrightarrow> \<not> starts_frac r \<and> \<not> starts_exp (after_fraction r)"
  by (cases r rule: starts_exp.cases) (auto simp: delimited_def after_fraction_def)

lemma match_unsigned_digits:
  assumes "delimited r"
  shows "match_unsigned neg (digits n @ r) = Some (Inr (PInt (if neg then - int n else int n), r))"
proof -
  obtain c ds where cd: "digits n = c # ds"
    using digits_ne [of n] by (cases "digits n") auto
  from digits_all [of n] cd have c: "is_digit c" and ds: "list_all is_digit ds" by simp_all
  show ?thesis
  proof (cases "n = 0")
    case True
    with cd have "c = CHR ''0''" "ds = []" by (simp_all add: digits_0)
    with cd True assms show ?thesis
      by (simp add: match_unsigned_def int_or_float_def delimited_no_float)
  next
    case False
    with hd_digits_zero [of n] cd have nz: "c \<noteq> CHR ''0''" by simp
    from ds have t: "takeWhile is_digit (ds @ r) = ds" "dropWhile is_digit (ds @ r) = r"
      using delimited_no_digit [OF assms]
      by (simp_all add: list_all_iff takeWhile_append2 dropWhile_append2)
    have "nat_of_digits (c # ds) = n" using nat_of_digits_digits [of n] cd by simp
    with cd nz c t assms show ?thesis
      by (simp add: match_unsigned_def int_or_float_def delimited_no_float)
  qed
qed

lemma match_number_int_repr:
  assumes "delimited r"
  shows "match_number (int_repr i @ r) = Some (Inr (PInt i, r))"
proof (cases "i < 0")
  case True
  then show ?thesis
    using match_unsigned_digits [OF assms, of True "nat (- i)"]
    by (simp add: match_number_def int_repr_def)
next
  case False
  obtain c ds where cd: "digits (nat i) = c # ds"
    using digits_ne [of "nat i"] by (cases "digits (nat i)") auto
  from digits_all [of "nat i"] cd have "is_digit c" by simp
  then have "c \<noteq> CHR ''-''" by (auto simp: is_digit_def)
  with False cd show ?thesis
    using match_unsigned_digits [OF assms, of False "nat i"]
    by (simp add: match_number_def int_repr_def)
qed

lemma int_repr_first:
  "\<exists>c cs. int_repr i = c # cs \<and> (c = CHR ''-'' \<or> is_digit c)"
proof -
  obtain c ds where cd: "digits (nat \<bar>i\<bar>) = c # ds"
    using digits_ne [of "nat \<bar>i\<bar>"] by (cases "digits (nat \<bar>i\<bar>)") auto
  from digits_all [of "nat \<bar>i\<bar>"] cd have "is_digit c" by simp
  with cd show ?thesis by (cases "i < 0") (auto simp: int_repr_def abs_if)
qed

lemma scan_atom_int_repr:
  assumes "delimited r"
  shows "scan_atom (int_repr i @ r) = Inr (PInt i, r)"
proof -
  from int_repr_first [of i] obtain c cs where c: "int_repr i = c # cs" "c = CHR ''-'' \<or> is_digit c"
    by blast
  then have "starts_with ''null'' (int_repr i @ r) = None"
    "starts_with ''true'' (int_repr i @ r) = None"
    "starts_with ''false'' (int_repr i @ r) = None"
    by (auto simp: is_digit_def)
  then show ?thesis
    using match_number_int_repr [OF assms, of i] by (simp add: scan_atom_def)
qed

lemma hex_val_hex_digit: "k < 16 \<Longrightarrow> hex_val (hex_digit k) = Some k"
  using hex_roundtrip by auto

lemma hex_val_zero: "hex_val (CHR ''0'') = Some 0"
  by code_simp

lemma decode_escape:
  "decode_uXXXX (CHR ''0'') (CHR ''0'') (hex_digit (of_char c div 16)) (hex_digit (of_char c mod 16))
     = Some (of_char c)"
proof -
  have "(of_char c :: nat) < 256" by simp
  then have "(of_char c :: nat) div 16 < 16" by arith
  then have h: "hex_val (hex_digit (of_char c div 16)) = Some (of_char c div 16)"
    by (rule hex_val_hex_digit)
  have l: "hex_val (hex_digit (of_char c mod 16)) = Some (of_char c mod 16)"
    by (rule hex_val_hex_digit) simp
  show ?thesis
    by (simp add: decode_uXXXX_def hex_val_zero h l)
qed

lemma backslash_table:
  "backslash (CHR 0x22) = Some (CHR 0x22)" "backslash (CHR 0x5C) = Some (CHR 0x5C)"
  "backslash (CHR ''n'') = Some (CHR 0x0A)" "backslash (CHR ''r'') = Some (CHR 0x0D)"
  "backslash (CHR ''t'') = Some (CHR 0x09)" "backslash (CHR ''b'') = Some (CHR 0x08)"
  "backslash (CHR ''f'') = Some (CHR 0x0C)"
  by (simp_all add: backslash_def)

lemma scanstring_escape_char:
  "scanstring (escape_char c @ s) = cons_result c (scanstring s)"
proof -
  consider (short) "c \<in> {CHR 0x22, CHR 0x5C, CHR 0x0A, CHR 0x0D, CHR 0x09, CHR 0x08, CHR 0x0C}"
    | (plain) "c \<notin> {CHR 0x22, CHR 0x5C, CHR 0x0A, CHR 0x0D, CHR 0x09, CHR 0x08, CHR 0x0C}"
        "32 \<le> (of_char c :: nat)" "(of_char c :: nat) \<le> 126"
    | (hex) "c \<notin> {CHR 0x22, CHR 0x5C, CHR 0x0A, CHR 0x0D, CHR 0x09, CHR 0x08, CHR 0x0C}"
        "\<not> (32 \<le> (of_char c :: nat) \<and> (of_char c :: nat) \<le> 126)"
    by blast
  then show ?thesis
  proof cases
    case short
    then show ?thesis
      by (auto simp: escape_char_def backslash_table)
  next
    case plain
    then show ?thesis
      by (simp add: escape_char_def)
  next
    case hex
    then show ?thesis
      by (simp add: escape_char_def decode_escape)
  qed
qed

lemma scanstring_escaped:
  "scanstring (concat (map escape_char s) @ CHR 0x22 # r) = Inr (s, r)"
  by (induction s) (simp_all add: scanstring_escape_char cons_result_def)

lemma dict_set_new: "k \<notin> fst ` set d \<Longrightarrow> dict_set d k v = d @ [(k, v)]"
  by (induction d) auto

lemma py_dict_foldl:
  "distinct (map fst (d @ pairs)) \<Longrightarrow>
     foldl (\<lambda>d m. dict_set d (fst m) (snd m)) d pairs = d @ pairs"
proof (induction pairs arbitrary: d)
  case Nil
  then show ?case by simp
next
  case (Cons m pairs)
  from Cons.prems have "fst m \<notin> fst ` set d" by auto
  then have "dict_set d (fst m) (snd m) = d @ [m]" by (simp add: dict_set_new)
  with Cons.IH [of "d @ [m]"] Cons.prems show ?case by simp
qed

lemma py_dict_distinct: "distinct (map fst pairs) \<Longrightarrow> py_dict pairs = pairs"
  using py_dict_foldl [of "[]" pairs] by (simp add: py_dict_def)

lemma encode_first: "\<exists>c cs. encode level v = c # cs \<and> value_start c"
proof (cases v)
  case (PInt i)
  from int_repr_first [of i] obtain c cs where "int_repr i = c # cs" "c = CHR ''-'' \<or> is_digit c"
    by blast
  with PInt show ?thesis by (auto simp: value_start_def is_ws_def is_digit_def)
next
  case (PList xs)
  then show ?thesis by (cases xs) (simp_all add: value_start_def is_ws_def)
next
  case (PDict ms)
  then show ?thesis by (cases ms) (simp_all add: value_start_def is_ws_def)
qed (simp_all add: value_start_def is_ws_def encode_string_def)

lemma value_start_skip: "value_start c \<Longrightarrow> skip_ws (c # s) = c # s"
  by (simp add: value_start_def skip_ws_Cons)

lemma skip_ws_space: "skip_ws (CHR '' '' # s) = skip_ws s"
  by (simp add: skip_ws_def is_ws_def)

lemma scan_once_string: "scan_once (Suc n) (encode_string s @ r) = Inr (PStr s, r)"
  by (simp add: encode_string_def scanstring_escaped)

lemma scan_once_array:
  "value_start c \<Longrightarrow>
     scan_once (Suc n) (CHR ''['' # newline_indent l @ c # s) =
       (case parse_elements n (c # s) of
          Inl e \<Rightarrow> Inl e
        | Inr (values, r) \<Rightarrow> Inr (PList values, r))"
  by (simp add: skip_ws_newline_indent value_start_skip) (simp add: value_start_def)

lemma scan_once_object:
  "scan_once (Suc n) (CHR ''{'' # newline_indent l @ CHR 0x22 # s) =
     (case parse_members n s of
        Inl e \<Rightarrow> Inl e
      | Inr (pairs, r) \<Rightarrow> Inr (PDict (py_dict pairs), r))"
  by (simp add: skip_ws_newline_indent skip_ws_Cons is_ws_def)

lemma parse_elements_last:
  "scan_once n s = Inr (v, newline_indent l @ CHR '']'' # r) \<Longrightarrow>
     parse_elements (Suc n) s = Inr ([v], r)"
  by (simp add: skip_ws_newline_indent skip_ws_Cons is_ws_def)

lemma parse_elements_more:
  "scan_once n s = Inr (v, CHR '','' # newline_indent l @ c # s') \<Longrightarrow> value_start c \<Longrightarrow>
   parse_elements n (c # s') = Inr (vs, r) \<Longrightarrow>
     parse_elements (Suc n) s = Inr (v # vs, r)"
  by (simp add: skip_ws_newline_indent skip_ws_Cons is_ws_def value_start_skip)

lemma parse_members_last:
  "value_start c \<Longrightarrow> scan_once n (c # s) = Inr (v, newline_indent l @ CHR ''}'' # r) \<Longrightarrow>
     parse_members (Suc n) (concat (map escape_char k) @ CHR 0x22 # '': '' @ c # s)
       = Inr ([(k, v)], r)"
  by (simp add: scanstring_escaped skip_ws_newline_indent skip_ws_Cons is_ws_def
      skip_ws_space value_start_skip)

lemma parse_members_more:
  "value_start c \<Longrightarrow>
   scan_once n (c # s) = Inr (v, CHR '','' # newline_indent l @ CHR 0x22 # s') \<Longrightarrow>
   parse_members n s' = Inr (ms, r) \<Longrightarrow>
     parse_members (Suc n) (concat (map escape_char k) @ CHR 0x22 # '': '' @ c # s)
       = Inr ((k, v) # ms, r)"
  by (simp add: scanstring_escaped skip_ws_newline_indent skip_ws_Cons is_ws_def
      skip_ws_space value_start_skip)

lemma encode_items_first: "xs \<noteq> [] \<Longrightarrow> \<exists>c cs. encode_items level xs = c # cs \<and> value_start c"
proof (cases xs)
  case Nil
  assume "xs \<noteq> []"
  with Nil show ?thesis by simp
next
  case (Cons x ys)
  from encode_first [of level x] obtain c cs where "encode level x = c # cs" "value_start c"
    by blast
  with Cons show ?thesis by (cases ys) simp_all
qed

lemma encode_members_first:
  "ms \<noteq> [] \<Longrightarrow> \<exists>cs. encode_members level ms = CHR 0x22 # cs"
proof (cases ms)
  case Nil
  assume "ms \<noteq> []"
  with Nil show ?thesis by simp
next
  case (Cons m ys)
  then show ?thesis by (cases m; cases ys) (simp_all add: encode_string_def)
qed

lemma delimited_simps:
  "delimited []" "delimited (CHR '','' # s)" "delimited (newline_indent l @ s)"
  by (simp_all add: delimited_def newline_indent_def)

lemma scan_once_atom:
  "c \<noteq> CHR 0x22 \<Longrightarrow> c \<noteq> CHR ''{'' \<Longrightarrow> c \<noteq> CHR ''['' \<Longrightarrow>
     scan_once (Suc n) (c # s) = scan_atom (c # s)"
  by simp

lemma scan_once_int:
  assumes "delimited r"
  shows "scan_once (Suc n) (int_repr i @ r) = Inr (PInt i, r)"
proof -
  from int_repr_first [of i] obtain c cs where c: "int_repr i = c # cs" "c = CHR ''-'' \<or> is_digit c"
    by blast
  then have "c \<noteq> CHR 0x22" "c \<noteq> CHR ''{''" "c \<noteq> CHR ''[''"
    by (auto simp: is_digit_def)
  then have "scan_once (Suc n) (c # cs @ r) = scan_atom (c # cs @ r)"
    by (rule scan_once_atom)
  with c(1) scan_atom_int_repr [OF assms, of i] show ?thesis by simp
qed

lemma roundtrip_aux:
  "wf_value v \<longrightarrow>
     (\<forall>n r. delimited r \<longrightarrow> length (encode level v) \<le> n \<longrightarrow>
        scan_once n (encode level v @ r) = Inr (v, r))"
  "xs \<noteq> [] \<longrightarrow> list_all wf_value xs \<longrightarrow>
     (\<forall>n l r. length (encode_items level xs) < n \<longrightarrow>
        parse_elements n (encode_items level xs @ newline_indent l @ CHR '']'' # r) = Inr (xs, r))"
  "ms \<noteq> [] \<longrightarrow> list_all (\<lambda>m. wf_value (snd m)) ms \<longrightarrow>
     (\<forall>n l r. length (encode_members level ms) < n \<longrightarrow>
        parse_members n (tl (encode_members level ms) @ newline_indent l @ CHR ''}'' # r)
          = Inr (ms, r))"
proof (induction level v and level xs and level ms rule: encode_encode_items_encode_members.induct)
  case (1 level)
  show ?case
  proof (intro impI allI)
    fix n r
    assume "length (encode level PNone) \<le> n"
    then obtain n' where "n = Suc n'" by (cases n) auto
    then show "scan_once n (encode level PNone @ r) = Inr (PNone, r)"
      by (simp add: scan_atom_def)
  qed
next
  case (2 level b)
  show ?case
  proof (intro impI allI)
    fix n r
    assume "length (encode level (PBool b)) \<le> n"
    then obtain n' where "n = Suc n'" by (cases n) (auto split: if_splits)
    then show "scan_once n (encode level (PBool b) @ r) = Inr (PBool b, r)"
      by (simp add: scan_atom_def)
  qed
next
  case (3 level i)
  show ?case
  proof (intro impI allI)
    fix n r
    assume d: "delimited r" and "length (encode level (PInt i)) \<le> n"
    with int_repr_first [of i] obtain n' where "n = Suc n'" by (cases n) auto
    with d show "scan_once n (encode level (PInt i) @ r) = Inr (PInt i, r)"
      by (simp add: scan_once_int)
  qed
next
  case (4 level s)
  show ?case
  proof (intro impI allI)
    fix n r
    assume "length (encode level (PStr s)) \<le> n"
    then obtain n' where "n = Suc n'" by (cases n) (auto simp: encode_string_def)
    then show "scan_once n (encode level (PStr s) @ r) = Inr (PStr s, r)"
      by (simp add: scan_once_string)
  qed
next
  case (5 level)
  show ?case
  proof (intro impI allI)
    fix n r
    assume "length (encode level (PList [])) \<le> n"
    then obtain n' where "n = Suc n'" by (cases n) auto
    then show "scan_once n (encode level (PList []) @ r) = Inr (PList [], r)"
      by (simp add: skip_ws_Cons is_ws_def)
  qed
next
  case (6 level x xs)
  show ?case
  proof (intro impI allI)
    fix n r
    assume wf: "wf_value (PList (x # xs))"
      and len: "length (encode level (PList (x # xs))) \<le> n"
    from len obtain n' where n: "n = Suc n'" by (cases n) auto
    with len have l: "length (encode_items (Suc level) (x # xs)) < n'"
      by (simp add: newline_indent_def)
    from encode_items_first [of "x # xs" "Suc level"] obtain c cs where
      c: "encode_items (Suc level) (x # xs) = c # cs" "value_start c" by auto
    from 6 wf l have "parse_elements n' (encode_items (Suc level) (x # xs) @ newline_indent level @ CHR '']'' # r)
        = Inr (x # xs, r)" by simp
    with c have p: "parse_elements n' (c # (cs @ newline_indent level @ CHR '']'' # r)) = Inr (x # xs, r)"
      by simp
    have "encode level (PList (x # xs)) @ r
        = CHR ''['' # newline_indent (Suc level) @ c # (cs @ newline_indent level @ CHR '']'' # r)"
      using c(1) by simp
    then show "scan_once n (encode level (PList (x # xs)) @ r) = Inr (PList (x # xs), r)"
      using scan_once_array [OF c(2), of n' "Suc level" "cs @ newline_indent level @ CHR '']'' # r"] p n
      by simp
  qed
next
  case (7 level)
  show ?case
  proof (intro impI allI)
    fix n r
    assume "length (encode level (PDict [])) \<le> n"
    then obtain n' where "n = Suc n'" by (cases n) auto
    then show "scan_once n (encode level (PDict []) @ r) = Inr (PDict [], r)"
      by (simp add: skip_ws_Cons is_ws_def)
  qed
next
  case (8 level m ms)
  show ?case
  proof (intro impI allI)
    fix n r
    assume wf: "wf_value (PDict (m # ms))"
      and len: "length (encode level (PDict (m # ms))) \<le> n"
    from len obtain n' where n: "n = Suc n'" by (cases n) auto
    with len have l: "length (encode_members (Suc level) (m # ms)) < n'"
      by (simp add: newline_indent_def)
    from encode_members_first [of "m # ms" "Suc level"] obtain cs where
      c: "encode_members (Suc level) (m # ms) = CHR 0x22 # cs" by auto
    from 8 wf l have "parse_members n' (tl (encode_members (Suc level) (m # ms)) @ newline_indent level @ CHR ''}'' # r)
        = Inr (m # ms, r)" by simp
    with c have p: "parse_members n' (cs @ newline_indent level @ CHR ''}'' # r) = Inr (m # ms, r)"
      by simp
    from wf have d: "py_dict (m # ms) = m # ms" by (simp add: py_dict_distinct)
    have "encode level (PDict (m # ms)) @ r
        = CHR ''{'' # newline_indent (Suc level) @ CHR 0x22 # (cs @ newline_indent level @ CHR ''}'' # r)"
      using c by simp
    then show "scan_once n (encode level (PDict (m # ms)) @ r) = Inr (PDict (m # ms), r)"
      using scan_once_object [of n' "Suc level" "cs @ newline_indent level @ CHR ''}'' # r"] p n d
      by simp
  qed
next
  case (9 level)
  show ?case by simp
next
  case (10 level x)
  show ?case
  proof (intro impI allI)
    fix n l r
    assume wf: "list_all wf_value [x]" and len: "length (encode_items level [x]) < n"
    from len obtain n' where n: "n = Suc n'" by (cases n) auto
    with 10 wf len have "scan_once n' (encode level x @ newline_indent l @ CHR '']'' # r)
        = Inr (x, newline_indent l @ CHR '']'' # r)"
      by (simp add: delimited_simps)
    then show "parse_elements n (encode_items level [x] @ newline_indent l @ CHR '']'' # r) = Inr ([x], r)"
      unfolding n by (simp only: encode_items.simps parse_elements_last)
  qed
next
  case (11 level x y ys)
  show ?case
  proof (intro impI allI)
    fix n l r
    assume wf: "list_all wf_value (x # y # ys)"
      and len: "length (encode_items level (x # y # ys)) < n"
    from len obtain n' where n: "n = Suc n'" by (cases n) auto
    from encode_items_first [of "y # ys" level] obtain c cs where
      c: "encode_items level (y # ys) = c # cs" "value_start c" by auto
    let ?rest = "cs @ newline_indent l @ CHR '']'' # r"
    from 11(1) wf len n have s: "scan_once n' (encode level x @ CHR '','' # newline_indent level @ c # ?rest)
        = Inr (x, CHR '','' # newline_indent level @ c # ?rest)"
      by (simp add: delimited_simps)
    from 11(2) wf len n have "parse_elements n' (encode_items level (y # ys) @ newline_indent l @ CHR '']'' # r)
        = Inr (y # ys, r)"
      by simp
    with c have p: "parse_elements n' (c # ?rest) = Inr (y # ys, r)" by simp
    have "encode_items level (x # y # ys) @ newline_indent l @ CHR '']'' # r
        = encode level x @ CHR '','' # newline_indent level @ c # ?rest"
      using c(1) by simp
    then show "parse_elements n (encode_items level (x # y # ys) @ newline_indent l @ CHR '']'' # r)
        = Inr (x # y # ys, r)"
      using parse_elements_more [OF s c(2) p] n by simp
  qed
next
  case (12 level)
  show ?case by simp
next
  case (13 level k v)
  show ?case
  proof (intro impI allI)
    fix n l r
    assume wf: "list_all (\<lambda>m. wf_value (snd m)) [(k, v)]"
      and len: "length (encode_members level [(k, v)]) < n"
    from len obtain n' where n: "n = Suc n'" by (cases n) auto
    from encode_first [of level v] obtain c cs where
      c: "encode level v = c # cs" "value_start c" by auto
    from 13 wf len n have "scan_once n' (encode level v @ newline_indent l @ CHR ''}'' # r)
        = Inr (v, newline_indent l @ CHR ''}'' # r)"
      by (simp add: delimited_simps)
    with c have s: "scan_once n' (c # (cs @ newline_indent l @ CHR ''}'' # r))
        = Inr (v, newline_indent l @ CHR ''}'' # r)" by simp
    have "tl (encode_members level [(k, v)]) @ newline_indent l @ CHR ''}'' # r
        = concat (map escape_char k) @ CHR 0x22 # '': '' @ c # (cs @ newline_indent l @ CHR ''}'' # r)"
      using c(1) by (simp add: encode_string_def)
    then show "parse_members n (tl (encode_members level [(k, v)]) @ newline_indent l @ CHR ''}'' # r)
        = Inr ([(k, v)], r)"
      using parse_members_last [OF c(2) s, of k] n by simp
  qed
next
  case (14 level k v m ms)
  show ?case
  proof (intro impI allI)
    fix n l r
    assume wf: "list_all (\<lambda>m. wf_value (snd m)) ((k, v) # m # ms)"
      and len: "length (encode_members level ((k, v) # m # ms)) < n"
    from len obtain n' where n: "n = Suc n'" by (cases n) auto
    from encode_first [of level v] obtain c cs where
      c: "encode level v = c # cs" "value_start c" by auto
    from encode_members_first [of "m # ms" level] obtain ks where
      k: "encode_members level (m # ms) = CHR 0x22 # ks" by auto
    let ?rest = "ks @ newline_indent l @ CHR ''}'' # r"
    from 14(1) wf len n have "scan_once n' (encode level v @ CHR '','' # newline_indent level @ CHR 0x22 # ?rest)
        = Inr (v, CHR '','' # newline_indent level @ CHR 0x22 # ?rest)"
      by (simp add: delimited_simps)
    with c have s: "scan_once n' (c # (cs @ CHR '','' # newline_indent level @ CHR 0x22 # ?rest))
        = Inr (v, CHR '','' # newline_indent level @ CHR 0x22 # ?rest)" by simp
    from 14(2) wf len n have "parse_members n' (tl (encode_members level (m # ms)) @ newline_indent l @ CHR ''}'' # r)
        = Inr (m # ms, r)"
      by simp
    with k have p: "parse_members n' ?rest = Inr (m # ms, r)" by simp
    have "tl (encode_members level ((k, v) # m # ms)) @ newline_indent l @ CHR ''}'' # r
        = concat (map escape_char k) @ CHR 0x22 # '': ''
            @ c # (cs @ CHR '','' # newline_indent level @ CHR 0x22 # ?rest)"
      using c(1) k by (simp add: encode_string_def)
    then show "parse_members n (tl (encode_members level ((k, v) # m # ms)) @ newline_indent l @ CHR ''}'' # r)
        = Inr ((k, v) # m # ms, r)"
      using parse_members_more [OF c(2) s p, of k] n by simp
  qed
qed

lemma scan_once_encode:
  "wf_value v \<Longrightarrow> delimited r \<Longrightarrow> length (encode level v) \<le> n \<Longrightarrow>
     scan_once n (encode level v @ r) = Inr (v, r)"
  using roundtrip_aux(1) by blast

lemma json_roundtrip:
  assumes "wf_value v"
  shows "json_load (json_dump v) = Inr v"
proof -
  from encode_first [of 0 v] obtain c cs where c: "encode 0 v = c # cs" "value_start c"
    by blast
  then have "skip_ws (encode 0 v) = encode 0 v" by (simp add: value_start_skip)
  moreover have "scan_once (2 * length (encode 0 v) + 2) (encode 0 v) = Inr (v, [])"
    using scan_once_encode [OF assms delimited_simps(1), of 0 "2 * length (encode 0 v) + 2"]
    by simp
  ultimately show ?thesis
    by (simp add: json_load_def json_dump_def skip_ws_def)
qed

lemma is_str_wf: "is_str v \<Longrightarrow> wf_value v"
  by (cases v) simp_all

lemma is_int_wf: "is_int v \<Longrightarrow> wf_value v"
  by (cases v) simp_all

lemma task_record_wf: "is_task_record r \<Longrightarrow> wf_value r"
proof (cases r)
  case (PDict ms)
  assume "is_task_record r"
  with PDict have k: "map fst ms = [''id'', ''title'', ''description'', ''due_date'', ''priority'']"
    and i: "is_int (snd (hd ms))" and s: "list_all (\<lambda>m. is_str (snd m)) (tl ms)"
    by (simp_all add: is_task_record_def)
  from k obtain m ms' where ms: "ms = m # ms'" by (cases ms) auto
  from k have "distinct (map fst ms)" by simp
  moreover from i s ms have "list_all (\<lambda>m. wf_value (snd m)) ms"
    by (auto simp: list_all_iff is_str_wf is_int_wf)
  ultimately show ?thesis using PDict by simp
qed (simp_all add: is_task_record_def)

lemma task_dict_is_task_record: "is_task_record (task_dict i t d dd p)"
  by (simp add: is_task_record_def task_dict_def)

subsection \<open>Dates in the format \<^verbatim>\<open>YYYY-MM-DD\<close> are accepted\<close>

lemma due_date_examples:
  "yyyy_mm_dd ''2024-07-15'' \<and> strptime ''2024-07-15'' = Some (2024, 7, 15)
   \<and> \<not> yyyy_mm_dd ''2024-13-01'' \<and> strptime ''2024-13-01'' = None
   \<and> \<not> yyyy_mm_dd ''2024/01/01'' \<and> strptime ''2024/01/01'' = None"
  by code_simp

lemma month_table:
  "\<forall>f \<in> set ''0123456789''. \<forall>g \<in> set ''0123456789''.
     1 \<le> 10 * digit_val f + digit_val g \<and> 10 * digit_val f + digit_val g \<le> 12 \<longrightarrow>
       map fst (alts_m [f, g]) \<noteq> [] \<and> hd (alts_m [f, g]) = (10 * digit_val f + digit_val g, [])"
  by code_simp

lemma day_table:
  "\<forall>i \<in> set ''0123456789''. \<forall>j \<in> set ''0123456789''.
     1 \<le> 10 * digit_val i + digit_val j \<and> 10 * digit_val i + digit_val j \<le> 31 \<longrightarrow>
       match_day [i, j] = Some (10 * digit_val i + digit_val j, [])"
  by code_simp

lemma days_in_month_le: "days_in_month y m \<le> 31"
  by (simp add: days_in_month_def)

lemma alt2_rest: "alt2 p q (f # g # r) = map (\<lambda>(m, s). (m, s @ r)) (alt2 p q [f, g])"
  by simp

lemma alt1_rest: "alt1 p (f # g # r) = map (\<lambda>(m, s). (m, s @ r)) (alt1 p [f, g])"
  by simp

lemma alts_m_rest: "alts_m (f # g # r) = map (\<lambda>(m, s). (m, s @ r)) (alts_m [f, g])"
  unfolding alts_m_def
  by (simp only: alt2_rest [of _ _ f g r] alt1_rest [of _ f g r] map_append)

lemma match_month_padded:
  assumes "is_digit f" "is_digit g" "1 \<le> 10 * digit_val f + digit_val g"
    "10 * digit_val f + digit_val g \<le> 12"
  shows "\<exists>rest. alts_m (f # g # r) = (10 * digit_val f + digit_val g, r) # rest"
proof -
  from assms(1,2) have fg: "f \<in> set ''0123456789''" "g \<in> set ''0123456789''"
    unfolding is_digit_def .
  from assms(3,4) have "1 \<le> 10 * digit_val f + digit_val g \<and> 10 * digit_val f + digit_val g \<le> 12" ..
  then have "map fst (alts_m [f, g]) \<noteq> [] \<and> hd (alts_m [f, g]) = (10 * digit_val f + digit_val g, [])"
    by (rule month_table [rule_format, OF fg])
  then have ne: "alts_m [f, g] \<noteq> []"
    and h: "hd (alts_m [f, g]) = (10 * digit_val f + digit_val g, [])"
    by simp_all
  from ne have "alts_m [f, g] = hd (alts_m [f, g]) # tl (alts_m [f, g])"
    by (rule hd_Cons_tl [symmetric])
  then have "alts_m [f, g] = (10 * digit_val f + digit_val g, []) # tl (alts_m [f, g])"
    by (simp only: h)
  then have "alts_m (f # g # r)
      = map (\<lambda>(m, s). (m, s @ r)) ((10 * digit_val f + digit_val g, []) # tl (alts_m [f, g]))"
    by (simp only: alts_m_rest [of f g r])
  then show ?thesis by simp
qed

lemma match_day_padded:
  assumes "is_digit i" "is_digit j" "1 \<le> 10 * digit_val i + digit_val j"
    "10 * digit_val i + digit_val j \<le> 31"
  shows "match_day [i, j] = Some (10 * digit_val i + digit_val j, [])"
proof -
  from assms(1,2) have ij: "i \<in> set ''0123456789''" "j \<in> set ''0123456789''"
    unfolding is_digit_def .
  from assms(3,4) have "1 \<le> 10 * digit_val i + digit_val j \<and> 10 * digit_val i + digit_val j \<le> 31" ..
  then show ?thesis by (rule day_table [rule_format, OF ij])
qed

lemma strptime_padded:
  assumes "is_digit a" "is_digit b" "is_digit c" "is_digit d"
    and "is_digit f" "is_digit g" "is_digit i" "is_digit j"
    and "datetime_date (nat_of_digits [a, b, c, d]) (nat_of_digits [f, g]) (nat_of_digits [i, j])"
  shows "strptime [a, b, c, d, CHR ''-'', f, g, CHR ''-'', i, j]
     = Some (nat_of_digits [a, b, c, d], nat_of_digits [f, g], nat_of_digits [i, j])"
proof -
  have y: "nat_of_digits [a, b, c, d]
      = 1000 * digit_val a + 100 * digit_val b + 10 * digit_val c + digit_val d"
    and m: "nat_of_digits [f, g] = 10 * digit_val f + digit_val g"
    and dd: "nat_of_digits [i, j] = 10 * digit_val i + digit_val j"
    by (simp_all add: nat_of_digits_def)
  from assms(9) have mr: "1 \<le> 10 * digit_val f + digit_val g" "10 * digit_val f + digit_val g \<le> 12"
    and dr: "1 \<le> 10 * digit_val i + digit_val j"
    and dm: "10 * digit_val i + digit_val j \<le> days_in_month (nat_of_digits [a, b, c, d]) (nat_of_digits [f, g])"
    by (simp_all add: datetime_date_def m dd)
  from dm days_in_month_le [of "nat_of_digits [a, b, c, d]" "nat_of_digits [f, g]"]
  have dr': "10 * digit_val i + digit_val j \<le> 31" by simp
  from match_month_padded [OF assms(5,6) mr, of "[CHR ''-'', i, j]"] obtain rest where
    am: "alts_m [f, g, CHR ''-'', i, j] = (10 * digit_val f + digit_val g, [CHR ''-'', i, j]) # rest"
    by blast
  have md: "match_month_day [f, g, CHR ''-'', i, j]
      = Some ((10 * digit_val f + digit_val g, 10 * digit_val i + digit_val j), [])"
    by (simp add: match_month_day_def am match_day_padded [OF assms(7,8) dr dr'])
  have "format_regex_match [a, b, c, d, CHR ''-'', f, g, CHR ''-'', i, j]
      = Some ((nat_of_digits [a, b, c, d], nat_of_digits [f, g], nat_of_digits [i, j]), [])"
    using assms(1-4) by (simp add: format_regex_match_def md y m dd)
  with assms(9) show ?thesis by (simp add: strptime_def)
qed



lemma length_10:
  "length s = 10 \<Longrightarrow> \<exists>a b c d e f g h i j. s = [a, b, c, d, e, f, g, h, i, j]"
  by (auto simp: eval_nat_numeral length_Suc_conv)

lemma yyyy_mm_dd_accepted:
  assumes "yyyy_mm_dd s"
  shows "strptime s
     = Some (nat_of_digits (take 4 s), nat_of_digits (take 2 (drop 5 s)), nat_of_digits (drop 8 s))"
proof -
  from assms have "length s = 10" by (simp add: yyyy_mm_dd_def)
  from length_10 [OF this] obtain a b c d e f g h i j where
    s: "s = [a, b, c, d, e, f, g, h, i, j]"
    by (elim exE)
  from assms have "e = CHR ''-''" "h = CHR ''-''"
    "is_digit a" "is_digit b" "is_digit c" "is_digit d"
    "is_digit f" "is_digit g" "is_digit i" "is_digit j"
    "datetime_date (nat_of_digits [a, b, c, d]) (nat_of_digits [f, g]) (nat_of_digits [i, j])"
    unfolding s yyyy_mm_dd_def by simp_all
  then show ?thesis
    unfolding s using strptime_padded [of a b c d f g i j] by simp
qed

lemma strptime_Some_date: "strptime s = Some (y, m, d) \<Longrightarrow> datetime_date y m d"
  by (auto simp: strptime_def split: option.splits prod.splits if_splits)

subsection \<open>The decoder consumes its input and always has calls left\<close>

lemma skip_ws_length: "length (skip_ws s) \<le> length s"
  by (simp add: skip_ws_def length_dropWhile_le)

lemma skip_ws_Cons_length: "skip_ws s = c # r \<Longrightarrow> length r < length s"
  using skip_ws_length [of s] by simp

lemma starts_with_length: "starts_with p s = Some r \<Longrightarrow> length r + length p = length s"
  by (induction p s rule: starts_with.induct) (auto split: if_splits)

lemma cons_result_Inr:
  "cons_result c res = Inr (s, r) \<Longrightarrow> \<exists>s'. res = Inr (s', r)"
  by (auto simp: cons_result_def split: sum.splits)

lemma cons_result_error: "cons_result c res = Inl e \<Longrightarrow> res = Inl e"
  by (auto simp: cons_result_def split: sum.splits)

lemma int_or_float_Inr: "int_or_float neg n r = Inr (v, r') \<Longrightarrow> r' = r"
  by (auto simp: int_or_float_def split: if_splits)

lemma int_or_float_error: "int_or_float neg n r \<noteq> Inl RecursionError"
  by (simp add: int_or_float_def)

lemma match_unsigned_length: "match_unsigned neg s = Some (Inr (v, r)) \<Longrightarrow> length r < length s"
  using length_dropWhile_le [of is_digit "tl s"]
  by (cases s) (auto simp: match_unsigned_def split: if_splits dest!: int_or_float_Inr)

lemma match_unsigned_error: "match_unsigned neg s \<noteq> Some (Inl RecursionError)"
  by (cases s) (auto simp: match_unsigned_def int_or_float_error)

lemma match_number_length: "match_number s = Some (Inr (v, r)) \<Longrightarrow> length r < length s"
  by (cases s) (auto simp: match_number_def split: if_splits dest!: match_unsigned_length)

lemma match_number_error: "match_number s \<noteq> Some (Inl RecursionError)"
  by (cases s) (auto simp: match_number_def match_unsigned_error)

lemma scanstring_cases:
  obtains (quote) "c = CHR 0x22" "scanstring (c # r0) = Inr ([], r0)"
  | (uni) a b c' d r1 and n :: nat where "c = CHR 0x5C" "r0 = CHR ''u'' # a # b # c' # d # r1"
      "scanstring (c # r0) = cons_result (char_of n) (scanstring r1)"
  | (esc) e r1 ch where "c = CHR 0x5C" "r0 = e # r1"
      "scanstring (c # r0) = cons_result ch (scanstring r1)"
  | (plain) "scanstring (c # r0) = cons_result c (scanstring r0)"
  | (error) e where "scanstring (c # r0) = Inl e" "e \<noteq> RecursionError"
proof (cases "c = CHR 0x22")
  case True
  with quote show ?thesis by simp
next
  case nq: False
  show ?thesis
  proof (cases "c = CHR 0x5C")
    case False
    with nq plain error [of JSONDecodeError] show ?thesis
      by (cases "(of_char c :: nat) < 32") auto
  next
    case bs: True
    show ?thesis
    proof (cases r0)
      case Nil
      with bs error [of JSONDecodeError] show ?thesis by simp
    next
      case (Cons e r1)
      show ?thesis
      proof (cases "e = CHR ''u''")
        case False
        with bs Cons esc error [of JSONDecodeError] show ?thesis
          by (cases "backslash e") auto
      next
        case u: True
        show ?thesis
        proof (cases r1 rule: match_Y.cases)
          case (1 a b c' d r2)
          show ?thesis
          proof (cases "decode_uXXXX a b c' d")
            case None
            with bs Cons u 1 error [of JSONDecodeError] show ?thesis by simp
          next
            case (Some n)
            with bs Cons u 1 uni [of a b c' d r2 n] error [of Unsupported] show ?thesis
              by (cases "n < 256") auto
          qed
        qed (use bs Cons u error [of JSONDecodeError] in simp_all)
      qed
    qed
  qed
qed

lemma scanstring_length: "scanstring s = Inr (str, r) \<Longrightarrow> length r < length s"
proof (induction "length s" arbitrary: s str rule: less_induct)
  case less
  from less.prems obtain c r0 where s: "s = c # r0" by (cases s) auto
  show ?case
  proof (cases rule: scanstring_cases [of c r0])
    case quote
    with s less.prems show ?thesis by simp
  next
    case (uni a b c' d r1 n)
    with less.prems s obtain s' where "scanstring r1 = Inr (s', r)"
      using cons_result_Inr [of "char_of n" "scanstring r1" str r] by auto
    with less.hyps [of r1 s'] uni s show ?thesis by simp
  next
    case (esc e r1 ch)
    with less.prems s obtain s' where "scanstring r1 = Inr (s', r)"
      using cons_result_Inr [of ch "scanstring r1" str r] by auto
    with less.hyps [of r1 s'] esc s show ?thesis by simp
  next
    case plain
    with less.prems s obtain s' where "scanstring r0 = Inr (s', r)"
      using cons_result_Inr [of c "scanstring r0" str r] by auto
    with less.hyps [of r0 s'] s show ?thesis by simp
  next
    case (error e)
    with less.prems s show ?thesis by simp
  qed
qed

lemma scanstring_no_recursion: "scanstring s \<noteq> Inl RecursionError"
proof (induction "length s" arbitrary: s rule: less_induct)
  case less
  show ?case
  proof (cases s)
    case Nil
    then show ?thesis by simp
  next
    case (Cons c r0)
    show ?thesis
    proof (cases rule: scanstring_cases [of c r0])
      case quote
      with Cons show ?thesis by simp
    next
      case (uni a b c' d r1 n)
      with less [of r1] Cons show ?thesis
        using cons_result_error [of "char_of n" "scanstring r1" RecursionError] by auto
    next
      case (esc e r1 ch)
      with less [of r1] Cons show ?thesis
        using cons_result_error [of ch "scanstring r1" RecursionError] by auto
    next
      case plain
      with less [of r0] Cons show ?thesis
        using cons_result_error [of c "scanstring r0" RecursionError] by auto
    next
      case (error e)
      with Cons show ?thesis by auto
    qed
  qed
qed

lemma scan_atom_length: "scan_atom s = Inr (v, r) \<Longrightarrow> length r < length s"
  by (auto simp: scan_atom_def split: option.splits
      dest!: starts_with_length match_number_length)

lemma scan_atom_error: "scan_atom s \<noteq> Inl RecursionError"
  using match_number_error [of s]
  by (auto simp: scan_atom_def split: option.splits)

lemma parser_consumes:
  "\<forall>v r. scan_once n s = Inr (v, r) \<longrightarrow> length r < length s"
  "\<forall>vs r. parse_elements n s' = Inr (vs, r) \<longrightarrow> length r < length s'"
  "\<forall>ms r. parse_members n s'' = Inr (ms, r) \<longrightarrow> length r < length s''"
proof (induction n s and n s' and n s'' rule: scan_once_parse_elements_parse_members.induct)
  case (1 s)
  show ?case by simp
next
  case (2 n)
  show ?case by simp
next
  case (3 n c r)
  show ?case
  proof (intro allI impI)
    fix v r'
    assume a: "scan_once (Suc n) (c # r) = Inr (v, r')"
    consider (str) "c = CHR 0x22" | (obj) "c \<noteq> CHR 0x22" "c = CHR ''{''"
      | (arr) "c \<noteq> CHR 0x22" "c \<noteq> CHR ''{''" "c = CHR ''[''"
      | (atom) "c \<noteq> CHR 0x22" "c \<noteq> CHR ''{''" "c \<noteq> CHR ''[''"
      by blast
    then show "length r' < length (c # r)"
    proof cases
      case str
      with a obtain str where "scanstring r = Inr (str, r')"
        by (auto split: sum.splits)
      then show ?thesis by (auto dest: scanstring_length)
    next
      case obj
      with a obtain c' r0 where s: "skip_ws r = c' # r0" by (auto split: list.splits)
      show ?thesis
      proof (cases "c' = CHR ''}''")
        case True
        with a obj s have "r' = r0" by simp
        with skip_ws_Cons_length [OF s] show ?thesis by simp
      next
        case False
        with a obj s have q: "c' = CHR 0x22" by (auto split: if_splits)
        with a obj s False obtain pairs where "parse_members n r0 = Inr (pairs, r')"
          by (auto split: sum.splits)
        with 3(1) [OF obj s False q] have "length r' < length r0" by blast
        with skip_ws_Cons_length [OF s] show ?thesis by simp
      qed
    next
      case arr
      with a obtain c' r0 where s: "skip_ws r = c' # r0" by (auto split: list.splits)
      show ?thesis
      proof (cases "c' = CHR '']''")
        case True
        with a arr s have "r' = r0" by simp
        with skip_ws_Cons_length [OF s] show ?thesis by simp
      next
        case False
        with a arr s obtain vs where "parse_elements n (c' # r0) = Inr (vs, r')"
          by (auto split: sum.splits)
        with 3(2) [OF arr s False] have "length r' < length (c' # r0)" by blast
        with skip_ws_length [of r] s show ?thesis by simp
      qed
    next
      case atom
      with a have "scan_atom (c # r) = Inr (v, r')" by simp
      then show ?thesis by (rule scan_atom_length)
    qed
  qed
next
  case (4 s)
  show ?case by simp
next
  case (5 n s)
  show ?case
  proof (intro allI impI)
    fix vs r
    assume a: "parse_elements (Suc n) s = Inr (vs, r)"
    then obtain v r1 where v: "scan_once n s = Inr (v, r1)"
      by (auto split: sum.splits)
    with 5(1) have l1: "length r1 < length s" by blast
    from a v obtain c r2 where s: "skip_ws r1 = c # r2" by (auto split: list.splits)
    show "length r < length s"
    proof (cases "c = CHR '']''")
      case True
      with a v s have "r = r2" by simp
      with skip_ws_Cons_length [OF s] l1 show ?thesis by simp
    next
      case False
      with a v s have q: "c = CHR '',''" by (auto split: if_splits)
      with a v s False obtain vs' where "parse_elements n (skip_ws r2) = Inr (vs', r)"
        by (auto split: sum.splits)
      with 5(2) [OF v refl s False q] have "length r < length (skip_ws r2)" by blast
      with skip_ws_length [of r2] skip_ws_Cons_length [OF s] l1 show ?thesis by simp
    qed
  qed
next
  case (6 s)
  show ?case by simp
next
  case (7 n s)
  show ?case
  proof (intro allI impI)
    fix ms r
    assume a: "parse_members (Suc n) s = Inr (ms, r)"
    then obtain key r0 where k: "scanstring s = Inr (key, r0)"
      by (auto split: sum.splits)
    then have l0: "length r0 < length s" by (rule scanstring_length)
    from a k obtain r1 where c: "starts_with '':'' (skip_ws r0) = Some r1"
      by (auto split: option.splits)
    from starts_with_length [OF c] skip_ws_length [of r0] have l1: "length r1 < length r0" by simp
    from a k c obtain v r2 where v: "scan_once n (skip_ws r1) = Inr (v, r2)"
      by (auto split: sum.splits)
    with 7(1) [OF k refl c] have "length r2 < length (skip_ws r1)" by blast
    with skip_ws_length [of r1] have l2: "length r2 < length r1" by simp
    from a k c v obtain c' r3 where s: "skip_ws r2 = c' # r3" by (auto split: list.splits)
    show "length r < length s"
    proof (cases "c' = CHR ''}''")
      case True
      with a k c v s have "r = r3" by simp
      with skip_ws_Cons_length [OF s] l0 l1 l2 show ?thesis by simp
    next
      case False
      with a k c v s have q: "c' = CHR '',''" by (auto split: if_splits)
      with a k c v s False obtain r4 where w: "starts_with [CHR 0x22] (skip_ws r3) = Some r4"
        by (auto split: option.splits)
      with a k c v s False q obtain ms' where "parse_members n r4 = Inr (ms', r)"
        by (auto split: sum.splits)
      with 7(2) [OF k refl c v refl s False q w] have "length r < length r4" by blast
      with starts_with_length [OF w] skip_ws_length [of r3] skip_ws_Cons_length [OF s] l0 l1 l2
      show ?thesis by simp
    qed
  qed
qed

lemma scan_once_length: "scan_once n s = Inr (v, r) \<Longrightarrow> length r < length s"
  using parser_consumes(1) by blast

lemma parser_fuel:
  "2 * length s + 1 \<le> n \<longrightarrow> scan_once n s \<noteq> Inl RecursionError"
  "2 * length s' + 2 \<le> n \<longrightarrow> parse_elements n s' \<noteq> Inl RecursionError"
  "2 * length s'' + 2 \<le> n \<longrightarrow> parse_members n s'' \<noteq> Inl RecursionError"
proof (induction n s and n s' and n s'' rule: scan_once_parse_elements_parse_members.induct)
  case (1 s)
  show ?case by simp
next
  case (2 n)
  show ?case by simp
next
  case (3 n c r)
  show ?case
  proof (intro impI notI)
    assume f: "2 * length (c # r) + 1 \<le> Suc n"
      and a: "scan_once (Suc n) (c # r) = Inl RecursionError"
    consider (str) "c = CHR 0x22" | (obj) "c \<noteq> CHR 0x22" "c = CHR ''{''"
      | (arr) "c \<noteq> CHR 0x22" "c \<noteq> CHR ''{''" "c = CHR ''[''"
      | (atom) "c \<noteq> CHR 0x22" "c \<noteq> CHR ''{''" "c \<noteq> CHR ''[''"
      by blast
    then show False
    proof cases
      case str
      with a have "scanstring r = Inl RecursionError"
        by (auto split: sum.splits)
      then show ?thesis by (simp add: scanstring_no_recursion)
    next
      case obj
      with a obtain c' r0 where s: "skip_ws r = c' # r0" by (auto split: list.splits)
      from a obj s have ne: "c' \<noteq> CHR ''}''" by auto
      with a obj s have q: "c' = CHR 0x22" by (auto split: if_splits)
      with a obj s ne have "parse_members n r0 = Inl RecursionError"
        by (auto split: sum.splits)
      moreover from f skip_ws_Cons_length [OF s] have "2 * length r0 + 2 \<le> n" by simp
      ultimately show ?thesis using 3(1) [OF obj s ne q] by simp
    next
      case arr
      with a obtain c' r0 where s: "skip_ws r = c' # r0" by (auto split: list.splits)
      from a arr s have ne: "c' \<noteq> CHR '']''" by auto
      with a arr s have "parse_elements n (c' # r0) = Inl RecursionError"
        by (auto split: sum.splits)
      moreover from f skip_ws_length [of r] s have "2 * length (c' # r0) + 2 \<le> n" by simp
      ultimately show ?thesis using 3(2) [OF arr s ne] by simp
    next
      case atom
      with a have "scan_atom (c # r) = Inl RecursionError" by simp
      then show ?thesis by (simp add: scan_atom_error)
    qed
  qed
next
  case (4 s)
  show ?case by simp
next
  case (5 n s)
  show ?case
  proof (intro impI notI)
    assume f: "2 * length s + 2 \<le> Suc n"
      and a: "parse_elements (Suc n) s = Inl RecursionError"
    from f 5(1) have nr: "scan_once n s \<noteq> Inl RecursionError" by simp
    with a obtain v r1 where v: "scan_once n s = Inr (v, r1)"
      by (cases "scan_once n s") auto
    then have l1: "length r1 < length s" by (rule scan_once_length)
    from a v obtain c r2 where s: "skip_ws r1 = c # r2" by (auto split: list.splits)
    from a v s have ne: "c \<noteq> CHR '']''" by auto
    with a v s have q: "c = CHR '',''" by (auto split: if_splits)
    with a v s ne have "parse_elements n (skip_ws r2) = Inl RecursionError"
      by (auto split: sum.splits)
    moreover from f l1 skip_ws_Cons_length [OF s] skip_ws_length [of r2]
    have "2 * length (skip_ws r2) + 2 \<le> n" by simp
    ultimately show False using 5(2) [OF v refl s ne q] by simp
  qed
next
  case (6 s)
  show ?case by simp
next
  case (7 n s)
  show ?case
  proof (intro impI notI)
    assume f: "2 * length s + 2 \<le> Suc n"
      and a: "parse_members (Suc n) s = Inl RecursionError"
    from a scanstring_no_recursion [of s] obtain key r0 where k: "scanstring s = Inr (key, r0)"
      by (cases "scanstring s") auto
    then have l0: "length r0 < length s" by (rule scanstring_length)
    from a k obtain r1 where c: "starts_with '':'' (skip_ws r0) = Some r1"
      by (auto split: option.splits)
    from starts_with_length [OF c] skip_ws_length [of r0] have l1: "length r1 < length r0" by simp
    from f l0 l1 skip_ws_length [of r1] have "2 * length (skip_ws r1) + 1 \<le> n" by simp
    with 7(1) [OF k refl c] have nr: "scan_once n (skip_ws r1) \<noteq> Inl RecursionError" by simp
    with a k c obtain v r2 where v: "scan_once n (skip_ws r1) = Inr (v, r2)"
      by (cases "scan_once n (skip_ws r1)") auto
    from scan_once_length [OF v] skip_ws_length [of r1] have l2: "length r2 < length r1" by simp
    from a k c v obtain c' r3 where s: "skip_ws r2 = c' # r3" by (auto split: list.splits)
    from a k c v s have ne: "c' \<noteq> CHR ''}''" by auto
    with a k c v s have q: "c' = CHR '',''" by (auto split: if_splits)
    with a k c v s ne obtain r4 where w: "starts_with [CHR 0x22] (skip_ws r3) = Some r4"
      by (auto split: option.splits)
    with a k c v s ne q have "parse_members n r4 = Inl RecursionError"
      by (auto split: sum.splits)
    moreover from f starts_with_length [OF w] skip_ws_length [of r3] skip_ws_Cons_length [OF s]
      l0 l1 l2 have "2 * length r4 + 2 \<le> n" by simp
    ultimately show False using 7(2) [OF k refl c v refl s ne q w] by simp
  qed
qed

lemma json_load_no_recursion: "json_load s \<noteq> Inl RecursionError"
proof -
  from skip_ws_length [of s] have "2 * length (skip_ws s) + 1 \<le> 2 * length s + 2" by simp
  with parser_fuel(1) [of "skip_ws s" "2 * length s + 2"]
  have "scan_once (2 * length s + 2) (skip_ws s) \<noteq> Inl RecursionError" by blast
  then show ?thesis
    by (auto simp: json_load_def split: sum.splits)
qed

section \<open>The properties of the specification\<close>

text \<open>
  Claim C1, as the code has it. A call of \<^verbatim>\<open>add_task\<close> that returns gives the new record
  the id 1 when the collection is empty and 1 plus the largest id in the collection
  otherwise, which is larger than every id in the collection at the time of the call.
  For every sequence of calls that all return, started on the empty collection with no
  record removed in between, the ids are 1, 2, 3, ... in the order of the calls.
\<close>

theorem C1_ids:
  "(add_task self fs title description due_date priority = (Inr r, self', fs') \<longrightarrow>
     (\<exists>ts ns. task_list self = PList ts \<and> map task_id ts = map Some ns
        \<and> task_list self' =
            PList (ts @ [task_dict (if ns = [] then 1 else Max (set ns) + 1)
                           title description due_date priority])
        \<and> (\<forall>i \<in> set ns. i < (if ns = [] then 1 else Max (set ns) + 1))))
   \<and> (task_list self = PList [] \<and> add_tasks self fs inputs = (Inr r, self', fs') \<longrightarrow>
        (\<exists>ts. task_list self' = PList ts \<and> map task_id ts = map Some [1..int (length inputs)]))"
proof (intro conjI impI)
  assume "add_task self fs title description due_date priority = (Inr r, self', fs')"
  from add_task_success [OF this] obtain ts ns where
    a: "task_list self = PList ts" "map task_id ts = map Some ns"
    "self' = self\<lparr>task_list := PList (ts @ [task_dict (py_max ns 0 + 1) title description due_date priority])\<rparr>"
    by blast
  have m: "py_max ns 0 + 1 = (if ns = [] then 1 else Max (set ns) + 1)"
    by (simp add: py_max_nonempty)
  have "\<forall>i \<in> set ns. i < (if ns = [] then 1 else Max (set ns) + 1)"
    by (auto simp: less_Suc_eq_le intro: Max_ge le_less_trans [where y = "Max (set ns)"])
  with a m show "\<exists>ts ns. task_list self = PList ts \<and> map task_id ts = map Some ns
        \<and> task_list self' =
            PList (ts @ [task_dict (if ns = [] then 1 else Max (set ns) + 1)
                           title description due_date priority])
        \<and> (\<forall>i \<in> set ns. i < (if ns = [] then 1 else Max (set ns) + 1))"
    by (intro exI [of _ ts] exI [of _ ns]) simp
next
  assume "task_list self = PList [] \<and> add_tasks self fs inputs = (Inr r, self', fs')"
  then show "\<exists>ts. task_list self' = PList ts \<and> map task_id ts = map Some [1..int (length inputs)]"
    using add_tasks_ids [of self fs inputs r self' fs' "[]" 0] by simp
qed

theorem C1_ids_witness:
  "add_task store0 Map.empty ''Write report'' ''Q3 summary'' ''2024-07-15'' ''High''
     = (Inr PNone,
        store0\<lparr>task_list := PList [task_dict 1 ''Write report'' ''Q3 summary'' ''2024-07-15'' ''High'']\<rparr>,
        save_to_json (store0\<lparr>task_list := PList [task_dict 1 ''Write report'' ''Q3 summary'' ''2024-07-15'' ''High'']\<rparr>) Map.empty)
   \<and> (\<exists>ts. task_list (store0\<lparr>task_list := PList [task_dict 1 ''Write report'' ''Q3 summary'' ''2024-07-15'' ''High'']\<rparr>) = PList ts
         \<and> map task_id ts = [Some 1])"
proof -
  have a: "add_task store0 Map.empty ''Write report'' ''Q3 summary'' ''2024-07-15'' ''High''
     = (Inr PNone,
        store0\<lparr>task_list := PList [task_dict 1 ''Write report'' ''Q3 summary'' ''2024-07-15'' ''High'']\<rparr>,
        save_to_json (store0\<lparr>task_list := PList [task_dict 1 ''Write report'' ''Q3 summary'' ''2024-07-15'' ''High'']\<rparr>) Map.empty)"
    using add_task_valid [of store0 "[]" "[]" "''Write report''" "''High''" "''2024-07-15''" Map.empty "''Q3 summary''"]
    by (simp add: store0_def strptime_example)
  have b: "task_list store0 = PList []" by (simp add: store0_def)
  have c: "add_tasks store0 Map.empty [(''Write report'', ''Q3 summary'', ''2024-07-15'', ''High'')]
     = (Inr PNone,
        store0\<lparr>task_list := PList [task_dict 1 ''Write report'' ''Q3 summary'' ''2024-07-15'' ''High'']\<rparr>,
        save_to_json (store0\<lparr>task_list := PList [task_dict 1 ''Write report'' ''Q3 summary'' ''2024-07-15'' ''High'']\<rparr>) Map.empty)"
    by (simp add: a)
  from C1_ids [of store0 Map.empty "''Write report''" "''Q3 summary''" "''2024-07-15''" "''High''" PNone
      "store0\<lparr>task_list := PList [task_dict 1 ''Write report'' ''Q3 summary'' ''2024-07-15'' ''High'']\<rparr>"
      "save_to_json (store0\<lparr>task_list := PList [task_dict 1 ''Write report'' ''Q3 summary'' ''2024-07-15'' ''High'']\<rparr>) Map.empty"
      "[(''Write report'', ''Q3 summary'', ''2024-07-15'', ''High'')]"] a b c
  show ?thesis by (simp add: upto.simps)
qed

text \<open>
  Claim C1 also says that an id is never used again when earlier records are removed
  from outside. It is: two calls on the empty collection give the ids 1 and 2; with the
  second record removed, the next call gives the id 2 again.
\<close>

theorem C1_id_reused_counterexample:
  "fst (snd (add_tasks store0 Map.empty
       [(''a'', ''x'', ''2024-07-15'', ''Low''), (''b'', ''y'', ''2024-07-16'', ''Low'')]))
     = store0\<lparr>task_list := PList [task_dict 1 ''a'' ''x'' ''2024-07-15'' ''Low'',
                                   task_dict 2 ''b'' ''y'' ''2024-07-16'' ''Low'']\<rparr>
   \<and> remove_record 1 (store0\<lparr>task_list := PList [task_dict 1 ''a'' ''x'' ''2024-07-15'' ''Low'',
                                   task_dict 2 ''b'' ''y'' ''2024-07-16'' ''Low'']\<rparr>)
     = store0\<lparr>task_list := PList [task_dict 1 ''a'' ''x'' ''2024-07-15'' ''Low'']\<rparr>
   \<and> fst (snd (add_task (store0\<lparr>task_list := PList [task_dict 1 ''a'' ''x'' ''2024-07-15'' ''Low'']\<rparr>)
         (snd (snd (add_tasks store0 Map.empty
            [(''a'', ''x'', ''2024-07-15'', ''Low''), (''b'', ''y'', ''2024-07-16'', ''Low'')])))
         ''c'' ''z'' ''2024-07-17'' ''Low''))
     = store0\<lparr>task_list := PList [task_dict 1 ''a'' ''x'' ''2024-07-15'' ''Low'',
                                   task_dict 2 ''c'' ''z'' ''2024-07-17'' ''Low'']\<rparr>
   \<and> task_id (task_dict 2 ''c'' ''z'' ''2024-07-17'' ''Low'')
       = task_id (task_dict 2 ''b'' ''y'' ''2024-07-16'' ''Low'')"
  by code_simp

text \<open>
  Claim C2. When the title is empty, the priority is not one of the three names or the
  due date does not parse, \<^verbatim>\<open>add_task\<close> raises one of the three validation errors and
  leaves the object and every file as they were; and whenever it raises one of them,
  the object and the files are unchanged.
\<close>

theorem C2_failed_validation_changes_nothing:
  "(title = [] \<or> priority \<notin> set [''Low'', ''Medium'', ''High''] \<or> strptime due_date = None \<longrightarrow>
      (\<exists>e \<in> {InvalidTitle, InvalidPriority, InvalidDueDate}.
         add_task self fs title description due_date priority = (Inl e, self, fs)))
   \<and> (fst (add_task self fs title description due_date priority)
         \<in> {Inl InvalidTitle, Inl InvalidPriority, Inl InvalidDueDate} \<longrightarrow>
       snd (add_task self fs title description due_date priority) = (self, fs))"
  by (auto simp: add_task_def Let_def split: option.splits sum.splits)

theorem C2_failed_validation_changes_nothing_witness:
  "add_task (store0\<lparr>task_list := PList [task_dict 1 ''a'' ''x'' ''2024-07-15'' ''Low'']\<rparr>)
      (Map.empty(''tasks.json'' \<mapsto> ''[]'')) '''' ''x'' ''2024-07-15'' ''Low''
    = (Inl InvalidTitle, store0\<lparr>task_list := PList [task_dict 1 ''a'' ''x'' ''2024-07-15'' ''Low'']\<rparr>,
       Map.empty(''tasks.json'' \<mapsto> ''[]''))"
  using C2_failed_validation_changes_nothing
    [of "''''" "''Low''" "''2024-07-15''"
        "store0\<lparr>task_list := PList [task_dict 1 ''a'' ''x'' ''2024-07-15'' ''Low'']\<rparr>"
        "Map.empty(''tasks.json'' \<mapsto> ''[]'')" "''x''"]
  by (simp add: add_task_def)

text \<open>
  Claim C3. For every collection of task records, \<^verbatim>\<open>save_to_json\<close> followed by
  \<^verbatim>\<open>load_from_json\<close> on the same path returns the collection: the same records in the
  same order with the same fields; the constructor on that path gives the object back.
\<close>

theorem C3_save_load_roundtrip:
  assumes "task_list self = PList ts" and "list_all is_task_record ts"
  shows "load_from_json (json_file self) (save_to_json self fs) = Inr (PList ts)
     \<and> init (json_file self) (save_to_json self fs) = Inr self"
proof -
  from assms(2) have "wf_value (PList ts)"
    by (simp add: list_all_iff task_record_wf)
  then have "json_load (json_dump (PList ts)) = Inr (PList ts)"
    by (rule json_roundtrip)
  with assms(1) show ?thesis
    by (simp add: load_from_json_def save_to_json_def init_def)
qed

theorem C3_save_load_roundtrip_witness:
  "load_from_json ''tasks.json''
     (save_to_json \<lparr>json_file = ''tasks.json'',
                    task_list = PList [task_dict 1 ''Write report'' ''Q3 summary'' ''2024-07-15'' ''High'',
                                       task_dict 2 ''Review'' '''' ''2024-07-20'' ''Low'']\<rparr> Map.empty)
   = Inr (PList [task_dict 1 ''Write report'' ''Q3 summary'' ''2024-07-15'' ''High'',
                 task_dict 2 ''Review'' '''' ''2024-07-20'' ''Low''])"
  using C3_save_load_roundtrip
    [of "\<lparr>json_file = ''tasks.json'',
          task_list = PList [task_dict 1 ''Write report'' ''Q3 summary'' ''2024-07-15'' ''High'',
                             task_dict 2 ''Review'' '''' ''2024-07-20'' ''Low'']\<rparr>"
        "[task_dict 1 ''Write report'' ''Q3 summary'' ''2024-07-15'' ''High'',
          task_dict 2 ''Review'' '''' ''2024-07-20'' ''Low'']" Map.empty]
  by (simp add: task_dict_is_task_record)




text \<open>
  Claim C5. An empty title fails with \<open>InvalidTitle\<close> whatever the other fields are; with
  a title that is not empty, a priority outside the three names fails with
  \<open>InvalidPriority\<close> whatever the due date is; with both of them valid, a due date that
  does not parse fails with \<open>InvalidDueDate\<close>. The three failures are distinct.
\<close>

theorem C5_validation_order:
  "(title = [] \<longrightarrow>
      fst (add_task self fs title description due_date priority) = Inl InvalidTitle)
   \<and> (title \<noteq> [] \<and> priority \<notin> set [''Low'', ''Medium'', ''High''] \<longrightarrow>
      fst (add_task self fs title description due_date priority) = Inl InvalidPriority)
   \<and> (title \<noteq> [] \<and> priority \<in> set [''Low'', ''Medium'', ''High''] \<and> strptime due_date = None \<longrightarrow>
      fst (add_task self fs title description due_date priority) = Inl InvalidDueDate)
   \<and> distinct [InvalidTitle, InvalidPriority, InvalidDueDate]"
  by (simp add: add_task_def errors_distinct)

theorem C5_validation_order_witness:
  "fst (add_task store0 Map.empty '''' ''d'' ''2024/01/01'' ''low'') = Inl InvalidTitle
   \<and> fst (add_task store0 Map.empty ''t'' ''d'' ''2024/01/01'' ''low'') = Inl InvalidPriority
   \<and> fst (add_task store0 Map.empty ''t'' ''d'' ''2024/01/01'' ''Low'') = Inl InvalidDueDate"
  using C5_validation_order [of "''''" store0 Map.empty "''d''" "''2024/01/01''" "''low''"]
    C5_validation_order [of "''t''" store0 Map.empty "''d''" "''2024/01/01''" "''low''"]
    C5_validation_order [of "''t''" store0 Map.empty "''d''" "''2024/01/01''" "''Low''"]
  by (simp add: strptime_bad)

text \<open>
  Claim C6. Once the title check has passed, \<^verbatim>\<open>add_task\<close> fails with \<open>InvalidPriority\<close>
  exactly when the priority is not, character for character, one of \<^verbatim>\<open>Low\<close>,
  \<^verbatim>\<open>Medium\<close>, \<^verbatim>\<open>High\<close>.
\<close>

theorem C6_priority_exact:
  assumes "title \<noteq> []"
  shows "(fst (add_task self fs title description due_date priority) = Inl InvalidPriority)
       = (priority \<noteq> ''Low'' \<and> priority \<noteq> ''Medium'' \<and> priority \<noteq> ''High'')"
proof -
  obtain m where m: "ValueError m = InvalidPriority"
    by (simp add: InvalidPriority_def)
  from add_task_ValueError [of self fs title description due_date priority m]
  show ?thesis
    by (simp add: m errors_distinct assms)
qed

theorem C6_priority_exact_witness:
  "fst (add_task store0 Map.empty ''Write report'' ''Q3 summary'' ''2024-07-15'' ''low'') = Inl InvalidPriority
   \<and> fst (add_task store0 Map.empty ''Write report'' ''Q3 summary'' ''2024-07-15'' ''Low'') \<noteq> Inl InvalidPriority"
  using C6_priority_exact [of "''Write report''" store0 Map.empty "''Q3 summary''" "''2024-07-15''" "''low''"]
    C6_priority_exact [of "''Write report''" store0 Map.empty "''Q3 summary''" "''2024-07-15''" "''Low''"]
  by simp

text \<open>
  Claim C7. \<^verbatim>\<open>add_task\<close> fails with \<open>InvalidTitle\<close> exactly when the title is the empty
  string: no whitespace is trimmed, so a title that is a single space passes the check
  and is stored as it is.
\<close>

theorem C7_title_empty_only:
  "(fst (add_task self fs title description due_date priority) = Inl InvalidTitle) = (title = [])"
proof -
  obtain m where m: "ValueError m = InvalidTitle"
    by (simp add: InvalidTitle_def)
  from add_task_ValueError [of self fs title description due_date priority m]
  show ?thesis
    by (simp add: m errors_distinct split: if_splits)
qed

theorem C7_title_empty_only_witness:
  "fst (add_task store0 Map.empty '''' ''x'' ''2024-07-15'' ''Low'') = Inl InvalidTitle
   \<and> fst (add_task store0 Map.empty '' '' ''x'' ''2024-07-15'' ''Low'') \<noteq> Inl InvalidTitle
   \<and> fst (add_task store0 Map.empty '' '' ''x'' ''2024-07-15'' ''Low'') = Inr PNone
   \<and> task_list (fst (snd (add_task store0 Map.empty '' '' ''x'' ''2024-07-15'' ''Low'')))
       = PList [task_dict 1 '' '' ''x'' ''2024-07-15'' ''Low'']"
proof -
  have "add_task store0 Map.empty '' '' ''x'' ''2024-07-15'' ''Low''
     = (Inr PNone,
        store0\<lparr>task_list := PList [task_dict 1 '' '' ''x'' ''2024-07-15'' ''Low'']\<rparr>,
        save_to_json (store0\<lparr>task_list := PList [task_dict 1 '' '' ''x'' ''2024-07-15'' ''Low'']\<rparr>) Map.empty)"
    using add_task_valid [of store0 "[]" "[]" "'' ''" "''Low''" "''2024-07-15''" Map.empty "''x''"]
    by (simp add: store0_def strptime_example)
  then show ?thesis
    using C7_title_empty_only [of store0 Map.empty "''''" "''x''" "''2024-07-15''" "''Low''"]
      C7_title_empty_only [of store0 Map.empty "'' ''" "''x''" "''2024-07-15''" "''Low''"]
    by simp
qed

text \<open>
  Claim C8 at the due date \<^verbatim>\<open>2024-7-5\<close>, which is not in the format \<^verbatim>\<open>YYYY-MM-DD\<close>
  that the claim, the comment of the check and its error message name: \<^verbatim>\<open>strptime\<close>
  takes a month and a day without the leading zero, so \<^verbatim>\<open>add_task\<close> accepts the
  string and stores it as it is. Every date that is in the format is accepted
  (\<open>yyyy_mm_dd_accepted\<close>), and what is accepted is a date of the calendar
  (\<open>strptime_Some_date\<close>).
\<close>

theorem C8_unpadded_date_accepted:
  "\<not> yyyy_mm_dd ''2024-7-5''
   \<and> strptime ''2024-7-5'' = Some (2024, 7, 5)
   \<and> fst (add_task store0 Map.empty ''Write report'' ''Q3 summary'' ''2024-7-5'' ''High'') = Inr PNone
   \<and> task_list (fst (snd (add_task store0 Map.empty ''Write report'' ''Q3 summary'' ''2024-7-5'' ''High'')))
       = PList [task_dict 1 ''Write report'' ''Q3 summary'' ''2024-7-5'' ''High'']"
  by code_simp

text \<open>
  Claim C9. When the file does not exist, \<^verbatim>\<open>load_from_json\<close> returns the empty list
  without an exception, the constructor gives an object whose collection is empty, and
  \<^verbatim>\<open>view\<close> on it prints that there are no tasks.
\<close>

theorem C9_missing_file:
  "fs path = None \<Longrightarrow>
     load_from_json path fs = Inr (PList [])
     \<and> init path fs = Inr \<lparr>json_file = path, task_list = PList []\<rparr>
     \<and> view \<lparr>json_file = path, task_list = PList []\<rparr>
         = Inr (Print ''[yellow]No current tasks.[/yellow]'')"
  by (simp add: load_from_json_def init_def view_def)

theorem C9_missing_file_witness:
  "init ''tasks.json'' Map.empty = Inr store0
   \<and> task_list store0 = PList []
   \<and> view store0 = Inr (Print ''[yellow]No current tasks.[/yellow]'')"
  using C9_missing_file [of Map.empty "''tasks.json''"]
  by (simp add: store0_def)



end
